theory Spec2Isabelle
  imports Complex_Main "HOL-Library.Multiset"
begin

section \<open>Display lists of bonsai: \<^verbatim>\<open>src/runner/display_list.js\<close>\<close>

text \<open>
  The module keeps, for every owner, an array of child display objects and maintains
  the \<^verbatim>\<open>parent\<close> and \<^verbatim>\<open>next\<close> properties of the children.
  Display objects are JavaScript objects, compared by identity, so a node is modelled by its
  identity (a natural number) and the heap by one map per property.  A property holds an
  object or \<^verbatim>\<open>undefined\<close>: a \<open>ref\<close>, with \<open>None\<close> for
  \<^verbatim>\<open>undefined\<close>.  An array is a list of such slots.

  Every owner \<open>o\<close> has one display list, \<^verbatim>\<open>o.displayList\<close>, whose
  \<^verbatim>\<open>owner\<close> is \<open>o\<close>; \<open>children s o\<close> is its
  \<^verbatim>\<open>children\<close> array.

  \<^verbatim>\<open>DisplayObject.prototype._activate\<close>,
  \<^verbatim>\<open>DisplayObject.prototype._deactivate\<close>, the \<^verbatim>\<open>stage\<close>
  property and the registry of a stage (\<^verbatim>\<open>stage.registry.movies\<close>) are not
  part of this file.  They are parameters of the model (\<open>hooks\<close>): they act on the
  component \<open>world\<close> of the state, which holds the stage references and the
  registries, they neither read nor write \<^verbatim>\<open>parent\<close>,
  \<^verbatim>\<open>next\<close> or a children array, and they return normally.

  The methods \<^verbatim>\<open>_activate\<close> and \<^verbatim>\<open>_deactivate\<close> of a display
  object are those of \<^verbatim>\<open>DisplayObject.prototype\<close> unless the object carries
  one of the mixins of this file, which replace them by \<^verbatim>\<open>activate\<close> and
  \<^verbatim>\<open>deactivate\<close> (lines 128-142) or by the wrappers of lines 217-228.
  \<open>h_kind\<close> says which of the three a node has.
\<close>

type_synonym node = nat
type_synonym ref = "node option"
type_synonym stage = nat

record 'w state =
  children :: "node \<Rightarrow> ref list"
  parent :: "node \<Rightarrow> ref"
  nxt :: "node \<Rightarrow> ref"
  world :: 'w

datatype kind = Plain | Container | Timeline

record 'w hooks =
  h_stage :: "'w \<Rightarrow> node \<Rightarrow> stage option"
  h_activate :: "node \<Rightarrow> stage option \<Rightarrow> 'w \<Rightarrow> 'w"
  h_deactivate :: "node \<Rightarrow> 'w \<Rightarrow> 'w"
  h_movies_add :: "stage \<Rightarrow> node \<Rightarrow> 'w \<Rightarrow> 'w"
  h_movies_remove :: "stage \<Rightarrow> node \<Rightarrow> 'w \<Rightarrow> 'w"
  h_kind :: "node \<Rightarrow> kind"

text \<open>
  A call ends by returning a value or by throwing; the heap is what the call left behind
  in both cases.  \<open>TypeError\<close> is what the engine throws for a property access on
  \<^verbatim>\<open>undefined\<close> and for a call of something that is not a function;
  \<open>Thrown v\<close> is a \<^verbatim>\<open>throw\<close> statement of the source with the
  string \<open>v\<close>.
\<close>

datatype error = TypeError | Thrown string

datatype retval = Undefined | This node | TheChildren "ref list" | Other

type_synonym 'w result = "(error + retval) \<times> 'w state"

definition set_children :: "node \<Rightarrow> ref list \<Rightarrow> 'w state \<Rightarrow> 'w state" where
  "set_children n cs s = s\<lparr>children := (children s)(n := cs)\<rparr>"

definition set_parent :: "node \<Rightarrow> ref \<Rightarrow> 'w state \<Rightarrow> 'w state" where
  "set_parent n v s = s\<lparr>parent := (parent s)(n := v)\<rparr>"

definition set_next :: "node \<Rightarrow> ref \<Rightarrow> 'w state \<Rightarrow> 'w state" where
  "set_next n v s = s\<lparr>nxt := (nxt s)(n := v)\<rparr>"

definition set_world :: "'w \<Rightarrow> 'w state \<Rightarrow> 'w state" where
  "set_world w s = s\<lparr>world := w\<rparr>"

text \<open>\<^verbatim>\<open>array[i]\<close>: \<^verbatim>\<open>undefined\<close> outside the array.\<close>

definition elem_at :: "ref list \<Rightarrow> nat \<Rightarrow> ref" where
  "elem_at xs i = (if i < length xs then xs ! i else None)"

text \<open>\<^verbatim>\<open>array.indexOf(item)\<close>: the first index, \<open>None\<close> for \<open>-1\<close>.\<close>

fun indexOf :: "'a list \<Rightarrow> 'a \<Rightarrow> nat option" where
  "indexOf [] v = None"
| "indexOf (x # xs) v = (if x = v then Some 0 else map_option Suc (indexOf xs v))"

subsection \<open>\<^verbatim>\<open>getAncestors\<close>\<close>

text \<open>
  The \<^verbatim>\<open>do ... while (displayObject)\<close> loop follows the parent references
  and does not end on a cyclic chain: not returning is the value \<open>None\<close>.
\<close>

partial_function (option) getAncestors_loop ::
  "'w state \<Rightarrow> node \<Rightarrow> node list \<Rightarrow> node list option" where
  "getAncestors_loop s displayObject ancestors =
     (let ancestors' = ancestors @ [displayObject] in
      case parent s displayObject of
        None \<Rightarrow> Some ancestors'
      | Some p \<Rightarrow> getAncestors_loop s p ancestors')"

definition getAncestors :: "'w state \<Rightarrow> node \<Rightarrow> node list option" where
  "getAncestors s displayObject = getAncestors_loop s displayObject []"

definition inThisArray :: "'a list \<Rightarrow> 'a \<Rightarrow> bool" where
  "inThisArray this item = (indexOf this item \<noteq> None)"

text \<open>The parent chain of \<open>n\<close> ends; \<open>a\<close> is \<open>n\<close> or an ancestor of \<open>n\<close>.\<close>

inductive rooted :: "'w state \<Rightarrow> node \<Rightarrow> bool" for s :: "'w state" where
  root: "parent s n = None \<Longrightarrow> rooted s n"
| step: "parent s n = Some p \<Longrightarrow> rooted s p \<Longrightarrow> rooted s n"

inductive ancestor_or_self :: "'w state \<Rightarrow> node \<Rightarrow> node \<Rightarrow> bool" for s :: "'w state" where
  self: "ancestor_or_self s n n"
| up: "parent s n = Some p \<Longrightarrow> ancestor_or_self s a p \<Longrightarrow> ancestor_or_self s a n"

subsection \<open>\<^verbatim>\<open>activate\<close> and \<^verbatim>\<open>deactivate\<close>\<close>

text \<open>
  Both functions call the method of \<^verbatim>\<open>DisplayObject.prototype\<close> and then read
  \<^verbatim>\<open>this.children\<close>.  They are installed as \<^verbatim>\<open>_activate\<close> and
  \<^verbatim>\<open>_deactivate\<close> of \<^verbatim>\<open>methods\<close> (lines 157 and 164), and on an
  object that carries \<^verbatim>\<open>methods\<close> the property \<^verbatim>\<open>children\<close> is
  the method of line 185: a function with one parameter.  Its \<^verbatim>\<open>length\<close> is 1
  and it has no property \<^verbatim>\<open>0\<close>, so the loop is entered,
  \<^verbatim>\<open>children[0]\<close> is \<^verbatim>\<open>undefined\<close>, and the call
  \<^verbatim>\<open>children[0]._activate(stage)\<close> is a property access on
  \<^verbatim>\<open>undefined\<close>.

  A call of a method on a display object returns normally or throws, and leaves a world
  behind in both cases: \<open>None\<close> is a normal return.
\<close>

type_synonym 'w effect = "error option \<times> 'w"

definition methods_children_length :: nat where
  "methods_children_length = 1"

definition activate :: "'w hooks \<Rightarrow> node \<Rightarrow> stage option \<Rightarrow> 'w \<Rightarrow> 'w effect" where
  "activate H this stg w =
     (let w1 = h_activate H this stg w;
          length = methods_children_length
      in if 0 < length then (Some TypeError, w1) else (None, w1))"

definition deactivate :: "'w hooks \<Rightarrow> node \<Rightarrow> 'w \<Rightarrow> 'w effect" where
  "deactivate H this w =
     (let w1 = h_deactivate H this w;
          length = methods_children_length
      in if 0 < length then (Some TypeError, w1) else (None, w1))"

text \<open>The two functions of \<^verbatim>\<open>timelineMethods\<close> (lines 217-228).\<close>

definition timeline_activate :: "'w hooks \<Rightarrow> node \<Rightarrow> stage option \<Rightarrow> 'w \<Rightarrow> 'w effect" where
  "timeline_activate H this stg w =
     (case activate H this stg w of
        (Some e, w1) \<Rightarrow> (Some e, w1)
      | (None, w1) \<Rightarrow>
          (None, case stg of None \<Rightarrow> w1 | Some st \<Rightarrow> h_movies_add H st this w1))"

definition timeline_deactivate :: "'w hooks \<Rightarrow> node \<Rightarrow> 'w \<Rightarrow> 'w effect" where
  "timeline_deactivate H this w =
     deactivate H this
       (case h_stage H w this of None \<Rightarrow> w | Some st \<Rightarrow> h_movies_remove H st this w)"

text \<open>\<^verbatim>\<open>child._activate(stage)\<close> and \<^verbatim>\<open>child._deactivate()\<close>.\<close>

definition call_activate :: "'w hooks \<Rightarrow> node \<Rightarrow> stage option \<Rightarrow> 'w \<Rightarrow> 'w effect" where
  "call_activate H child stg w =
     (case h_kind H child of
        Plain \<Rightarrow> (None, h_activate H child stg w)
      | Container \<Rightarrow> activate H child stg w
      | Timeline \<Rightarrow> timeline_activate H child stg w)"

definition call_deactivate :: "'w hooks \<Rightarrow> node \<Rightarrow> 'w \<Rightarrow> 'w effect" where
  "call_deactivate H child w =
     (case h_kind H child of
        Plain \<Rightarrow> (None, h_deactivate H child w)
      | Container \<Rightarrow> deactivate H child w
      | Timeline \<Rightarrow> timeline_deactivate H child w)"

subsection \<open>\<^verbatim>\<open>DisplayList.prototype.remove\<close>\<close>

definition remove :: "'w hooks \<Rightarrow> node \<Rightarrow> ref \<Rightarrow> 'w state \<Rightarrow> 'w result" where
  "remove H owner displayObject s =
     (case indexOf (children s owner) displayObject of
        None \<Rightarrow> (Inr Undefined, s)
      | Some childIndex \<Rightarrow>
          (case displayObject of
             None \<Rightarrow> (Inl TypeError, s)
           | Some d \<Rightarrow>
               (case (if childIndex > 0
                      then (case elem_at (children s owner) (childIndex - 1) of
                              None \<Rightarrow> None
                            | Some previous \<Rightarrow> Some (set_next previous (nxt s d) s))
                      else Some s) of
                  None \<Rightarrow> (Inl TypeError, s)
                | Some s1 \<Rightarrow>
                    (let s2 = set_next d None (set_parent d None s1) in
                     case call_deactivate H d (world s2) of
                       (Some e, w3) \<Rightarrow> (Inl e, set_world w3 s2)
                     | (None, w3) \<Rightarrow>
                         (let s3 = set_world w3 s2;
                              s4 = set_children owner
                                     (take childIndex (children s3 owner) @
                                      drop (Suc childIndex) (children s3 owner)) s3
                          in (Inr Undefined, s4))))))"

subsection \<open>\<^verbatim>\<open>DisplayList.prototype.add\<close>\<close>

text \<open>
  The first argument is a display object (or \<^verbatim>\<open>undefined\<close>) or an array of
  display objects.  The second argument, when given, is a number or
  \<^verbatim>\<open>undefined\<close>; every finite double is a real number.
\<close>

datatype child_arg = Single ref | Array "node list"

datatype index_arg = Undef | NaN | PosInfinity | NegInfinity | Num real

text \<open>\<^verbatim>\<open>x >>> 0\<close>: truncate towards zero, then reduce modulo \<open>2 ^ 32\<close>;
  \<^verbatim>\<open>undefined\<close>, \<^verbatim>\<open>NaN\<close> and the infinities give 0.\<close>

definition trunc :: "real \<Rightarrow> int" where
  "trunc q = (if q < 0 then - \<lfloor>- q\<rfloor> else \<lfloor>q\<rfloor>)"

definition ToUint32 :: "index_arg \<Rightarrow> nat" where
  "ToUint32 v = (case v of Num q \<Rightarrow> nat (trunc q mod 2 ^ 32) | _ \<Rightarrow> 0)"

text \<open>Lines 69-70; \<open>None\<close> for a call with one argument.\<close>

definition resolve_insertAt :: "index_arg option \<Rightarrow> nat \<Rightarrow> nat" where
  "resolve_insertAt insertAt numExistingChildren =
     (case insertAt of
        Some v \<Rightarrow> min (ToUint32 v) numExistingChildren
      | None \<Rightarrow> numExistingChildren)"

text \<open>The \<^verbatim>\<open>for\<close> loop of lines 82-93; the first argument counts the
  iterations left (\<^verbatim>\<open>newChildrenStop - i\<close>).\<close>

fun add_loop :: "'w hooks \<Rightarrow> node \<Rightarrow> nat \<Rightarrow> nat \<Rightarrow> ref \<Rightarrow> 'w state \<Rightarrow> 'w result" where
  "add_loop H owner 0 i nextChild s = (Inr Undefined, s)"
| "add_loop H owner (Suc k) i nextChild s =
     (case (case nextChild of Some c \<Rightarrow> Some c | None \<Rightarrow> elem_at (children s owner) i) of
        None \<Rightarrow> (Inl TypeError, s)
      | Some child \<Rightarrow>
          (case (case parent s child of
                   None \<Rightarrow> (Inr Undefined, s)
                 | Some previousParent \<Rightarrow> remove H previousParent (Some child) s) of
             (Inl e, s1) \<Rightarrow> (Inl e, s1)
           | (Inr _, s1) \<Rightarrow>
               (let nextChild' = elem_at (children s1 owner) (i + 1);
                    s2 = set_parent child (Some owner) (set_next child nextChild' s1)
                in case call_activate H child (h_stage H (world s2) owner) (world s2) of
                     (Some e, w3) \<Rightarrow> (Inl e, set_world w3 s2)
                   | (None, w3) \<Rightarrow> add_loop H owner k (i + 1) nextChild' (set_world w3 s2))))"

definition add ::
  "'w hooks \<Rightarrow> node \<Rightarrow> child_arg \<Rightarrow> index_arg option \<Rightarrow> 'w state \<Rightarrow> 'w result option" where
  "add H owner child insertAt s =
     (case getAncestors s owner of
        None \<Rightarrow> None
      | Some ancestors \<Rightarrow> Some
          (let numNewChildren = (case child of Array cs \<Rightarrow> length cs | Single _ \<Rightarrow> 1) in
           if (case child of Single c \<Rightarrow> (case c of Some n \<Rightarrow> inThisArray ancestors n | None \<Rightarrow> False)
                           | Array _ \<Rightarrow> False)
           then (Inr Undefined, s)
           else if (case child of Array cs \<Rightarrow> list_ex (inThisArray ancestors) cs | Single _ \<Rightarrow> False)
           then (Inr Undefined, s)
           else if numNewChildren = 0
           then (Inr Undefined, s)
           else
             (let numExistingChildren = length (children s owner);
                  insertAt' = resolve_insertAt insertAt numExistingChildren;
                  new = (case child of Array cs \<Rightarrow> map Some cs | Single c \<Rightarrow> [c]);
                  s1 = set_children owner
                         (take insertAt' (children s owner) @ new @ drop insertAt' (children s owner)) s
              in case (if insertAt' > 0
                       then (case elem_at (children s1 owner) (insertAt' - 1) of
                               None \<Rightarrow> None
                             | Some previous \<Rightarrow> Some (set_next previous (hd new) s1))
                       else Some s1) of
                   None \<Rightarrow> (Inl TypeError, s1)
                 | Some s2 \<Rightarrow> add_loop H owner numNewChildren insertAt' None s2)))"

subsection \<open>\<^verbatim>\<open>DisplayList.prototype.clear\<close>\<close>

text \<open>The \<^verbatim>\<open>for\<close> loop of lines 102-105, which ends at the first empty slot or
  at the end of the array, or with the exception of a \<^verbatim>\<open>_deactivate\<close>.\<close>

function clear_loop :: "'w hooks \<Rightarrow> node \<Rightarrow> nat \<Rightarrow> 'w state \<Rightarrow> error option \<times> 'w state" where
  "clear_loop H owner i s =
     (case elem_at (children s owner) i of
        None \<Rightarrow> (None, s)
      | Some child \<Rightarrow>
          (case call_deactivate H child (world s) of
             (Some e, w1) \<Rightarrow> (Some e, set_world w1 s)
           | (None, w1) \<Rightarrow>
               clear_loop H owner (i + 1)
                 (set_next child None (set_parent child None (set_world w1 s)))))"
  by pat_completeness auto
termination
  by (relation "measure (\<lambda>(H, owner, i, s). length (children s owner) - i)")
     (auto simp: elem_at_def set_next_def set_parent_def set_world_def split: if_splits)

declare clear_loop.simps [simp del]

definition clear :: "'w hooks \<Rightarrow> node \<Rightarrow> 'w state \<Rightarrow> 'w result" where
  "clear H owner s =
     (case clear_loop H owner 0 s of
        (Some e, s1) \<Rightarrow> (Inl e, s1)
      | (None, s1) \<Rightarrow> (Inr Undefined, set_children owner [] s1))"

subsection \<open>The mixin \<^verbatim>\<open>methods\<close>\<close>

text \<open>
  The properties of a \<^verbatim>\<open>DisplayList\<close> instance: the constructor sets
  \<^verbatim>\<open>children\<close> and \<^verbatim>\<open>owner\<close>, the prototype has
  \<^verbatim>\<open>add\<close>, \<^verbatim>\<open>clear\<close> and \<^verbatim>\<open>remove\<close>.
  The prototype is an object literal, so an instance inherits the functions of
  \<^verbatim>\<open>Object.prototype\<close> (\<open>Inherited\<close>); they do not touch a display list.
  Any other name is \<^verbatim>\<open>undefined\<close>.
\<close>

datatype dl_method = M_add | M_clear | M_remove

datatype dl_property = Data | Method dl_method | Inherited

definition DisplayList_property :: "string \<Rightarrow> dl_property option" where
  "DisplayList_property =
     map_of [(''children'', Data), (''owner'', Data),
             (''add'', Method M_add), (''clear'', Method M_clear), (''remove'', Method M_remove),
             (''constructor'', Inherited), (''toString'', Inherited),
             (''toLocaleString'', Inherited), (''valueOf'', Inherited),
             (''hasOwnProperty'', Inherited), (''isPrototypeOf'', Inherited),
             (''propertyIsEnumerable'', Inherited)]"

text \<open>
  \<^verbatim>\<open>this.displayList.name(arg)\<close>, and with \<open>arg = None\<close> also
  \<^verbatim>\<open>this.displayList.name()\<close>: calling \<^verbatim>\<open>undefined\<close> or a
  data property throws a \<open>TypeError\<close>; an inherited function returns a value that
  is not a display object (\<open>Other\<close>) and leaves the state as it is.
\<close>

definition dl_call :: "'w hooks \<Rightarrow> node \<Rightarrow> string \<Rightarrow> ref \<Rightarrow> 'w state \<Rightarrow> 'w result option" where
  "dl_call H this name arg s =
     (case DisplayList_property name of
        None \<Rightarrow> Some (Inl TypeError, s)
      | Some Data \<Rightarrow> Some (Inl TypeError, s)
      | Some Inherited \<Rightarrow> Some (Inr Other, s)
      | Some (Method M_add) \<Rightarrow> add H this (Single arg) None s
      | Some (Method M_clear) \<Rightarrow> Some (clear H this s)
      | Some (Method M_remove) \<Rightarrow> Some (remove H this arg s))"

text \<open>\<^verbatim>\<open>...; return this;\<close>\<close>

definition return_this :: "node \<Rightarrow> 'w result option \<Rightarrow> 'w result option" where
  "return_this this r =
     (case r of
        None \<Rightarrow> None
      | Some (Inl e, s) \<Rightarrow> Some (Inl e, s)
      | Some (Inr _, s) \<Rightarrow> Some (Inr (This this), s))"

definition methods_addChild ::
  "'w hooks \<Rightarrow> node \<Rightarrow> child_arg \<Rightarrow> index_arg \<Rightarrow> 'w state \<Rightarrow> 'w result option" where
  "methods_addChild H this child index s = return_this this (add H this child (Some index) s)"

definition methods_children ::
  "'w hooks \<Rightarrow> node \<Rightarrow> child_arg option \<Rightarrow> 'w state \<Rightarrow> 'w result option" where
  "methods_children H this newChildren s =
     (case newChildren of
        Some new \<Rightarrow>
          (case clear H this s of
             (Inl e, s1) \<Rightarrow> Some (Inl e, s1)
           | (Inr _, s1) \<Rightarrow> return_this this (add H this new None s1))
      | None \<Rightarrow> Some (Inr (TheChildren (children s this)), s))"

definition methods_clear :: "'w hooks \<Rightarrow> node \<Rightarrow> 'w state \<Rightarrow> 'w result option" where
  "methods_clear H this s = return_this this (Some (clear H this s))"

definition methods_getComputed :: "'w hooks \<Rightarrow> node \<Rightarrow> string \<Rightarrow> 'w state \<Rightarrow> 'w result option" where
  "methods_getComputed H this key s = Some (Inl (Thrown ''implement me''), s)"

definition methods_getIndexOfChild :: "'w hooks \<Rightarrow> node \<Rightarrow> ref \<Rightarrow> 'w state \<Rightarrow> 'w result option" where
  "methods_getIndexOfChild H this child s = dl_call H this ''getIndexOfChild'' None s"

definition methods_removeChild :: "'w hooks \<Rightarrow> node \<Rightarrow> ref \<Rightarrow> 'w state \<Rightarrow> 'w result option" where
  "methods_removeChild H this child s = return_this this (dl_call H this ''removeChild'' child s)"

text \<open>A call of the mixin surface.\<close>

datatype mixin_call =
    AddChild child_arg index_arg
  | Children "child_arg option"
  | Clear
  | GetComputed string
  | GetIndexOfChild ref
  | RemoveChild ref

fun methods_call :: "'w hooks \<Rightarrow> node \<Rightarrow> mixin_call \<Rightarrow> 'w state \<Rightarrow> 'w result option" where
  "methods_call H this (AddChild child index) s = methods_addChild H this child index s"
| "methods_call H this (Children newChildren) s = methods_children H this newChildren s"
| "methods_call H this Clear s = methods_clear H this s"
| "methods_call H this (GetComputed key) s = methods_getComputed H this key s"
| "methods_call H this (GetIndexOfChild child) s = methods_getIndexOfChild H this child s"
| "methods_call H this (RemoveChild child) s = methods_removeChild H this child s"

subsection \<open>A stage and registry for the examples\<close>

text \<open>
  Modelled from the spec: \<^verbatim>\<open>DisplayObject.prototype._activate\<close> and
  \<^verbatim>\<open>_deactivate\<close>, which are not in this file.  Activation stores the stage
  reference in the node and, on a stage, enters the node in the registry of attached
  objects; deactivation clears the reference and deletes the entry; the registry of
  movies is a second set.  Every node of \<open>spec_hooks\<close> is a plain display object;
  in \<open>group_hooks g\<close> the node \<open>g\<close> carries the mixin \<^verbatim>\<open>methods\<close>.  Only the closed
  examples use these instances; the theorems hold for all hooks.
\<close>

record world =
  stage_of :: "node \<Rightarrow> stage option"
  displayObjects :: "node set"
  movies :: "node set"

definition spec_hooks :: "world hooks" where
  "spec_hooks =
     \<lparr>h_stage = (\<lambda>w n. stage_of w n),
      h_activate = (\<lambda>n st w.
         w\<lparr>stage_of := (stage_of w)(n := st),
           displayObjects := (case st of None \<Rightarrow> displayObjects w | Some _ \<Rightarrow> insert n (displayObjects w))\<rparr>),
      h_deactivate = (\<lambda>n w.
         w\<lparr>stage_of := (stage_of w)(n := None), displayObjects := displayObjects w - {n}\<rparr>),
      h_movies_add = (\<lambda>st n w. w\<lparr>movies := insert n (movies w)\<rparr>),
      h_movies_remove = (\<lambda>st n w. w\<lparr>movies := movies w - {n}\<rparr>),
      h_kind = (\<lambda>n. Plain)\<rparr>"

definition group_hooks :: "node \<Rightarrow> world hooks" where
  "group_hooks g = spec_hooks\<lparr>h_kind := (\<lambda>n. if n = g then Container else Plain)\<rparr>"

text \<open>Node 0 owns 1, node 1 owns 2, node 2 owns 3 and 4; nothing is on a stage.\<close>

definition chain_state :: "world state" where
  "chain_state =
     \<lparr>children = (\<lambda>_. [])(0 := [Some 1], 1 := [Some 2], 2 := [Some 3, Some 4]),
      parent = (\<lambda>_. None)(1 := Some 0, 2 := Some 1, 3 := Some 2, 4 := Some 2),
      nxt = (\<lambda>_. None)(3 := Some 4),
      world = \<lparr>stage_of = (\<lambda>_. None), displayObjects = {}, movies = {}\<rparr>\<rparr>"

subsection \<open>Well-formed lists\<close>

text \<open>
  \<open>chain nx zs e\<close>: following the next references from the first node of \<open>zs\<close>
  goes through \<open>zs\<close> in order, and the last node of \<open>zs\<close> refers to \<open>e\<close>.
  With \<open>e = None\<close>, iterating by sibling link yields exactly \<open>zs\<close>.
\<close>

fun chain :: "(node \<Rightarrow> ref) \<Rightarrow> node list \<Rightarrow> ref \<Rightarrow> bool" where
  "chain nx [] e = True"
| "chain nx [a] e = (nx a = e)"
| "chain nx (a # b # zs) e = (nx a = Some b \<and> chain nx (b # zs) e)"

text \<open>The children array of \<open>p\<close> has no empty slot, holds no node twice, and every
  child refers to \<open>p\<close> as its parent.\<close>

definition consistent :: "'w state \<Rightarrow> node \<Rightarrow> bool" where
  "consistent s p =
     (distinct (children s p) \<and>
      list_all (\<lambda>r. case r of None \<Rightarrow> False | Some n \<Rightarrow> parent s n = Some p) (children s p))"

text \<open>
  The nodes \<open>cs\<close> can be added to the list of \<open>A\<close>: there is one at least,
  they are different nodes, none is \<open>A\<close> or an ancestor of \<open>A\<close> (the guard of
  \<^verbatim>\<open>add\<close>), none is a child of \<open>A\<close> already, and the list of \<open>A\<close>
  and the lists of their present parents are consistent.
\<close>

definition addable :: "'w state \<Rightarrow> node \<Rightarrow> node list \<Rightarrow> bool" where
  "addable s A cs =
     (cs \<noteq> [] \<and> distinct cs \<and> consistent s A \<and>
      list_all (\<lambda>c. \<not> ancestor_or_self s c A \<and> parent s c \<noteq> Some A \<and>
                    (case parent s c of None \<Rightarrow> True | Some p \<Rightarrow> consistent s p)) cs)"

subsection \<open>Removing the children one by one\<close>

text \<open>
  Following the spec's words, to compare with \<^verbatim>\<open>clear\<close>: \<^verbatim>\<open>remove\<close>
  is called on each node of a list, in the order of the list.
\<close>

fun remove_each :: "'w hooks \<Rightarrow> node \<Rightarrow> node list \<Rightarrow> 'w state \<Rightarrow> 'w result" where
  "remove_each H owner [] s = (Inr Undefined, s)"
| "remove_each H owner (d # ds) s =
     (case remove H owner (Some d) s of
        (Inl e, s1) \<Rightarrow> (Inl e, s1)
      | (Inr _, s1) \<Rightarrow> remove_each H owner ds s1)"

text \<open>The state \<open>s\<close> with the list of \<open>A\<close> emptied, the parent and next references
  of the nodes \<open>ns\<close> cleared, and the world \<open>w\<close>.\<close>

definition unlinked :: "node list \<Rightarrow> 'w \<Rightarrow> node \<Rightarrow> 'w state \<Rightarrow> 'w state" where
  "unlinked ns w A s =
     s\<lparr>children := (children s)(A := []),
       parent := (\<lambda>n. if n \<in> set ns then None else parent s n),
       nxt := (\<lambda>n. if n \<in> set ns then None else nxt s n),
       world := w\<rparr>"

subsection \<open>Sequences of calls on the exported \<^verbatim>\<open>DisplayList\<close>\<close>

text \<open>
  A call of \<^verbatim>\<open>add\<close>, \<^verbatim>\<open>clear\<close> or \<^verbatim>\<open>remove\<close> on the
  display list of an owner, with display objects as arguments.  A caller may catch an
  exception and go on: the next call starts in the state the last one left.
\<close>

datatype dl_op =
    Add_one node "index_arg option"
  | Add_many "node list" "index_arg option"
  | Clear_all
  | Remove_one node

fun dl_exec :: "'w hooks \<Rightarrow> node \<times> dl_op \<Rightarrow> 'w state \<Rightarrow> 'w result option" where
  "dl_exec H (owner, Add_one c i) s = add H owner (Single (Some c)) i s"
| "dl_exec H (owner, Add_many cs i) s = add H owner (Array cs) i s"
| "dl_exec H (owner, Clear_all) s = Some (clear H owner s)"
| "dl_exec H (owner, Remove_one d) s = Some (remove H owner (Some d) s)"

fun run_ops :: "'w hooks \<Rightarrow> (node \<times> dl_op) list \<Rightarrow> 'w state \<Rightarrow> 'w state option" where
  "run_ops H [] s = Some s"
| "run_ops H (c # cs) s =
     (case dl_exec H c s of
        None \<Rightarrow> None
      | Some (r, s1) \<Rightarrow> run_ops H cs s1)"

text \<open>No slot of the children array is empty (a hole or \<^verbatim>\<open>undefined\<close>).\<close>

definition dense :: "'w state \<Rightarrow> node \<Rightarrow> bool" where
  "dense s owner = (None \<notin> set (children s owner))"

subsection \<open>The module body\<close>

text \<open>
  The factory function of the module, as the sequence of its top-level statements that
  bind or return the objects with methods.  \<open>Bind x ms\<close> gives the variable \<open>x\<close>
  an object with the methods \<open>ms\<close>: the constructor \<^verbatim>\<open>DisplayList\<close> with its
  prototype (lines 31-126), \<^verbatim>\<open>methods\<close> (lines 150-212), and after the
  \<^verbatim>\<open>return\<close> of lines 213-230 the assignment of the sparse-capable mixin to
  \<^verbatim>\<open>DisplayList\<close> (lines 244-529) and a second \<^verbatim>\<open>return\<close>
  (line 531).  Running the body stops at the first \<^verbatim>\<open>return\<close>.
\<close>

datatype expr = Var string | Lit "string list"

datatype stmt =
    Bind string "string list"
  | Return_object "(string \<times> expr) list"
  | Return_value expr

datatype exports = Exports "(string \<times> string list) list" | Exported "string list"

fun eval_expr :: "(string \<times> string list) list \<Rightarrow> expr \<Rightarrow> string list" where
  "eval_expr env (Var x) = (case map_of env x of None \<Rightarrow> [] | Some ms \<Rightarrow> ms)"
| "eval_expr env (Lit ms) = ms"

fun run_module :: "stmt list \<Rightarrow> (string \<times> string list) list \<Rightarrow> exports option" where
  "run_module [] env = None"
| "run_module (Bind x ms # rest) env = run_module rest ((x, ms) # env)"
| "run_module (Return_object props # rest) env =
     Some (Exports (map (\<lambda>(name, e). (name, eval_expr env e)) props))"
| "run_module (Return_value e # rest) env = Some (Exported (eval_expr env e))"

definition module_body :: "stmt list" where
  "module_body =
     [Bind ''DisplayList'' [''add'', ''clear'', ''remove''],
      Bind ''methods'' [''_activate'', ''_deactivate'', ''addChild'', ''children'', ''clear'',
                       ''getComputed'', ''getIndexOfChild'', ''removeChild''],
      Return_object
        [(''DisplayList'', Var ''DisplayList''), (''methods'', Var ''methods''),
         (''timelineMethods'',
            Lit [''_activate'', ''_deactivate'', ''addChild'', ''children'', ''clear'',
                 ''getComputed'', ''getIndexOfChild'', ''removeChild''])],
      Bind ''DisplayList'' [''addChild'', ''children'', ''clear'', ''getComputed'',
                           ''getIndexOfChild'', ''removeChild''],
      Return_value (Var ''DisplayList'')]"

subsection \<open>\<^verbatim>\<open>getComputed\<close> of the sparse-capable mixin (lines 399-448)\<close>

text \<open>
  The second half of the file assigns a mixin to \<^verbatim>\<open>DisplayList\<close> whose
  \<^verbatim>\<open>getComputed\<close> folds over the children of a container.  It reads the
  attributes \<^verbatim>\<open>x\<close> and \<^verbatim>\<open>y\<close> of each child and calls the child's own
  \<^verbatim>\<open>getComputed\<close>, so the objects form a tree: a \<open>Group\<close> is a container
  with this mixin, whose \<^verbatim>\<open>_children\<close> is absent or an array that may have
  holes; a \<open>Leaf\<close> is any other display object, whose own \<^verbatim>\<open>getComputed\<close>
  gives a number for an edge key and a size object for \<^verbatim>\<open>'size'\<close>.  Numbers
  are any linearly ordered type with addition (\<^verbatim>\<open>NaN\<close> is left out);
  \<^verbatim>\<open>Math.min\<close> and \<^verbatim>\<open>Math.max\<close> are \<open>min\<close> and \<open>max\<close>.
  The function assigns \<^verbatim>\<open>this._children\<close>, so it returns the object as it is
  after the call next to the value.  \<^verbatim>\<open>tools.reduce\<close> is taken to be a left
  fold in index order; the flag \<^verbatim>\<open>isFirst\<close> that the callback shares is part
  of the accumulator.
\<close>

record 'n box =
  b_top :: 'n
  b_right :: 'n
  b_bottom :: 'n
  b_left :: 'n
  b_width :: 'n
  b_height :: 'n

datatype 'n dobj =
    Leaf 'n 'n "string \<Rightarrow> 'n" "'n box"
  | Group 'n 'n "'n dobj option list option"

datatype 'n jsval = Number 'n | Size "'n box" | Undefined_value

fun attr :: "'n dobj \<Rightarrow> string \<Rightarrow> 'n" where
  "attr (Leaf x y _ _) name = (if name = ''y'' then y else x)"
| "attr (Group x y _) name = (if name = ''y'' then y else x)"

definition edge_step ::
  "('n \<Rightarrow> 'n \<Rightarrow> 'n) \<Rightarrow> 'n \<times> bool \<Rightarrow> ('n::plus \<times> 'n) option \<Rightarrow> 'n \<times> bool" where
  "edge_step compare acc child =
     (case acc of (current, isFirst) \<Rightarrow>
        (case child of
           None \<Rightarrow> (current, isFirst)
         | Some (a, v) \<Rightarrow>
             (let childValue = a + v in
              if isFirst then (childValue, False) else (compare current childValue, isFirst))))"

fun getComputed_edge :: "string \<Rightarrow> 'n dobj \<Rightarrow> ('n::{linorder,plus,zero}) \<times> 'n dobj" where
  "getComputed_edge key (Leaf x y computed sz) = (computed key, Leaf x y computed sz)"
| "getComputed_edge key (Group x y cho) =
     (let children = (case cho of None \<Rightarrow> [] | Some cs \<Rightarrow> cs);
          attributeName = (if key = ''top'' \<or> key = ''bottom'' then ''y'' else ''x'');
          compare = (if key = ''top'' \<or> key = ''left'' then min else max);
          visited = map (map_option (\<lambda>child. (attr child attributeName, getComputed_edge key child)))
                      children
      in (fst (foldl (edge_step compare) (0, True)
                 (map (map_option (\<lambda>(a, v, child'). (a, v))) visited)),
          Group x y (Some (map (map_option (\<lambda>(a, v, child'). child')) visited))))"

definition size_step ::
  "('n::{linorder,plus}) box \<times> bool \<Rightarrow> ('n box \<times> 'n \<times> 'n) option \<Rightarrow> 'n box \<times> bool" where
  "size_step acc child =
     (case acc of (size0, isFirst) \<Rightarrow>
        (case child of
           None \<Rightarrow> (size0, isFirst)
         | Some (childSize, childX, childY) \<Rightarrow>
             (let childTop = childY + b_top childSize;
                  size1 = size0\<lparr>b_top := (if isFirst then childTop else min (b_top size0) childTop)\<rparr>;
                  childRight = childX + b_right childSize;
                  size2 = size1\<lparr>b_right := (if isFirst then childRight else max (b_right size1) childRight)\<rparr>;
                  childBottom = childY + b_bottom childSize;
                  size3 = size2\<lparr>b_bottom := (if isFirst then childBottom else max (b_bottom size2) childBottom)\<rparr>;
                  childLeft = childX + b_left childSize;
                  size4 = size3\<lparr>b_left := (if isFirst then childLeft else min (b_left size3) childLeft)\<rparr>
              in (size4, False))))"

fun getComputed_size :: "'n dobj \<Rightarrow> ('n::{linorder,plus,minus,zero}) box \<times> 'n dobj" where
  "getComputed_size (Leaf x y computed sz) = (sz, Leaf x y computed sz)"
| "getComputed_size (Group x y cho) =
     (let children = (case cho of None \<Rightarrow> [] | Some cs \<Rightarrow> cs);
          visited = map (map_option (\<lambda>child. (getComputed_size child, attr child ''x'', attr child ''y'')))
                      children;
          size0 = fst (foldl size_step
                    (\<lparr>b_top = 0, b_right = 0, b_bottom = 0, b_left = 0, b_width = 0, b_height = 0\<rparr>, True)
                    (map (map_option (\<lambda>((childSize, child'), childX, childY). (childSize, childX, childY)))
                       visited));
          size1 = size0\<lparr>b_height := b_bottom size0 - b_top size0\<rparr>;
          size2 = size1\<lparr>b_width := b_right size1 - b_left size1\<rparr>
      in (size2, Group x y (Some (map (map_option (\<lambda>((childSize, child'), childX, childY). child')) visited))))"

definition getComputed :: "string \<Rightarrow> 'n dobj \<Rightarrow> ('n::{linorder,plus,minus,zero}) jsval \<times> 'n dobj" where
  "getComputed key this =
     (if key = ''top'' \<or> key = ''right'' \<or> key = ''bottom'' \<or> key = ''left''
      then (case getComputed_edge key this of (v, this') \<Rightarrow> (Number v, this'))
      else (case getComputed_size this of (size0, this') \<Rightarrow>
              (if key = ''size'' then Size size0
               else if key = ''width'' then Number (b_width size0)
               else if key = ''height'' then Number (b_height size0)
               else Undefined_value, this')))"

text \<open>The object with every absent \<^verbatim>\<open>_children\<close> replaced by an empty array;
  every container of the tree has its \<^verbatim>\<open>_children\<close> array.\<close>

fun initialised :: "'n dobj \<Rightarrow> 'n dobj" where
  "initialised (Leaf x y computed sz) = Leaf x y computed sz"
| "initialised (Group x y cho) =
     Group x y (Some (map (map_option initialised) (case cho of None \<Rightarrow> [] | Some cs \<Rightarrow> cs)))"

fun present :: "'n dobj \<Rightarrow> bool" where
  "present (Leaf x y computed sz) = True"
| "present (Group x y cho) =
     (case cho of
        None \<Rightarrow> False
      | Some cs \<Rightarrow> list_all (\<lambda>c. case c of None \<Rightarrow> True | Some d \<Rightarrow> present d) cs)"

text \<open>The three children of the spec's example: positions 0, 20 and -5, left edges 0, right
  edges 10, 5 and 3.\<close>

definition three_leaves :: "int dobj option list" where
  "three_leaves =
     [Some (Leaf 0 0 ((\<lambda>_. 0)(''right'' := 10))
              \<lparr>b_top = 0, b_right = 10, b_bottom = 0, b_left = 0, b_width = 10, b_height = 0\<rparr>),
      Some (Leaf 20 0 ((\<lambda>_. 0)(''right'' := 5))
              \<lparr>b_top = 0, b_right = 5, b_bottom = 0, b_left = 0, b_width = 5, b_height = 0\<rparr>),
      Some (Leaf (- 5) 0 ((\<lambda>_. 0)(''right'' := 3))
              \<lparr>b_top = 0, b_right = 3, b_bottom = 0, b_left = 0, b_width = 3, b_height = 0\<rparr>)]"

definition three_children :: "int dobj" where
  "three_children = Group 0 0 (Some three_leaves)"

text \<open>Node 0 owns 1, 2 and 3, linked in this order; node 6 owns 7; 4 and 5 are detached.\<close>

definition abc_state :: "world state" where
  "abc_state =
     \<lparr>children = (\<lambda>_. [])(0 := [Some 1, Some 2, Some 3], 6 := [Some 7]),
      parent = (\<lambda>_. None)(1 := Some 0, 2 := Some 0, 3 := Some 0, 7 := Some 6),
      nxt = (\<lambda>_. None)(1 := Some 2, 2 := Some 3),
      world = \<lparr>stage_of = (\<lambda>_. None), displayObjects = {}, movies = {}\<rparr>\<rparr>"

section \<open>Properties\<close>

subsection \<open>Arrays and state updates\<close>

lemma indexOf_append_first:
  "v \<notin> set xs \<Longrightarrow> indexOf (xs @ v # ys) v = Some (length xs)"
  by (induction xs) auto

lemma elem_at_simps [simp]:
  "elem_at [] i = None"
  "elem_at (x # xs) 0 = x"
  "elem_at (x # xs) (Suc i) = elem_at xs i"
  by (simp_all add: elem_at_def)

lemma elem_at_append:
  "elem_at (xs @ ys) i = (if i < length xs then xs ! i else elem_at ys (i - length xs))"
  by (auto simp: elem_at_def nth_append)

lemma state_simps [simp]:
  "children (set_children n cs s) = (children s)(n := cs)"
  "parent (set_children n cs s) = parent s"
  "nxt (set_children n cs s) = nxt s"
  "world (set_children n cs s) = world s"
  "children (set_parent n v s) = children s"
  "parent (set_parent n v s) = (parent s)(n := v)"
  "nxt (set_parent n v s) = nxt s"
  "world (set_parent n v s) = world s"
  "children (set_next n v s) = children s"
  "parent (set_next n v s) = parent s"
  "nxt (set_next n v s) = (nxt s)(n := v)"
  "world (set_next n v s) = world s"
  "children (set_world w s) = children s"
  "parent (set_world w s) = parent s"
  "nxt (set_world w s) = nxt s"
  "world (set_world w s) = w"
  by (simp_all add: set_children_def set_parent_def set_next_def set_world_def)

text \<open>What a call of \<^verbatim>\<open>_activate\<close> or \<^verbatim>\<open>_deactivate\<close> does, by the
  kind of the node: it returns on a plain display object and throws a \<open>TypeError\<close>
  on a node that carries one of the mixins.\<close>

lemma call_activate_Plain:
  "h_kind H c = Plain \<Longrightarrow> call_activate H c stg w = (None, h_activate H c stg w)"
  by (simp add: call_activate_def)

lemma call_deactivate_Plain:
  "h_kind H c = Plain \<Longrightarrow> call_deactivate H c w = (None, h_deactivate H c w)"
  by (simp add: call_deactivate_def)

lemma call_activate_mixin:
  "h_kind H c \<noteq> Plain \<Longrightarrow> call_activate H c stg w = (Some TypeError, h_activate H c stg w)"
  by (cases "h_kind H c")
     (simp_all add: call_activate_def activate_def timeline_activate_def
        methods_children_length_def)

lemma call_deactivate_mixin:
  "h_kind H c \<noteq> Plain \<Longrightarrow> fst (call_deactivate H c w) = Some TypeError"
  by (cases "h_kind H c")
     (simp_all add: call_deactivate_def deactivate_def timeline_deactivate_def
        methods_children_length_def)

lemma call_deactivate_Container:
  "h_kind H c = Container \<Longrightarrow> call_deactivate H c w = (Some TypeError, h_deactivate H c w)"
  by (simp add: call_deactivate_def deactivate_def methods_children_length_def)

lemma call_activate_TypeError: "call_activate H c stg w = (Some e, w') \<Longrightarrow> e = TypeError"
  by (cases "h_kind H c")
     (auto simp: call_activate_def activate_def timeline_activate_def
        methods_children_length_def)

lemma call_deactivate_TypeError: "call_deactivate H c w = (Some e, w') \<Longrightarrow> e = TypeError"
  by (cases "h_kind H c")
     (auto simp: call_deactivate_def deactivate_def timeline_deactivate_def
        methods_children_length_def)

lemma remove_first_occurrence:
  assumes cs: "children s A = map Some pre @ Some d # post" and d: "d \<notin> set pre"
    and plain: "h_kind H d = Plain"
  shows "remove H A (Some d) s =
           (Inr Undefined,
            set_children A (map Some pre @ post)
              (set_world (h_deactivate H d (world s))
                (set_next d None (set_parent d None
                  (if pre = [] then s else set_next (last pre) (nxt s d) s)))))"
proof -
  have idx: "indexOf (children s A) (Some d) = Some (length pre)"
    using indexOf_append_first [of "Some d" "map Some pre" post] d cs by auto
  show ?thesis
  proof (cases "pre = []")
    case True
    then show ?thesis
      using idx cs by (simp add: remove_def Let_def call_deactivate_Plain [OF plain])
  next
    case False
    then have "elem_at (children s A) (length pre - 1) = Some (last pre)"
      using cs by (simp add: elem_at_append last_conv_nth nth_map)
    then show ?thesis
      using idx cs False by (simp add: remove_def Let_def call_deactivate_Plain [OF plain])
  qed
qed

text \<open>On a child that carries a mixin, \<^verbatim>\<open>remove\<close> throws at line 123: the node is
  unlinked, and still in the array.\<close>

lemma remove_mixin_child:
  assumes cs: "children s A = map Some pre @ Some d # post" and d: "d \<notin> set pre"
    and mixin: "h_kind H d \<noteq> Plain"
  shows "remove H A (Some d) s =
           (Inl TypeError,
            set_world (snd (call_deactivate H d (world s)))
              (set_next d None (set_parent d None
                (if pre = [] then s else set_next (last pre) (nxt s d) s))))"
proof -
  have idx: "indexOf (children s A) (Some d) = Some (length pre)"
    using indexOf_append_first [of "Some d" "map Some pre" post] d cs by auto
  obtain w where w: "call_deactivate H d (world s) = (Some TypeError, w)"
    using call_deactivate_mixin [OF mixin, of "world s"]
    by (cases "call_deactivate H d (world s)") simp
  show ?thesis
  proof (cases "pre = []")
    case True
    then show ?thesis
      using idx cs w by (simp add: remove_def Let_def)
  next
    case False
    then have "elem_at (children s A) (length pre - 1) = Some (last pre)"
      using cs by (simp add: elem_at_append last_conv_nth nth_map)
    then show ?thesis
      using idx cs False w by (simp add: remove_def Let_def)
  qed
qed


subsection \<open>Ancestors\<close>

lemma ancestor_or_self_root:
  "ancestor_or_self s a n \<Longrightarrow> parent s n = None \<Longrightarrow> a = n"
  by (erule ancestor_or_self.cases) auto

lemma ancestor_or_self_step:
  "parent s n = Some p \<Longrightarrow> ancestor_or_self s a n \<longleftrightarrow> a = n \<or> ancestor_or_self s a p"
  by (auto intro: ancestor_or_self.intros elim: ancestor_or_self.cases)

text \<open>On a parent chain that ends, \<^verbatim>\<open>getAncestors\<close> returns, and what it
  returns are the node and its ancestors.\<close>

lemma getAncestors_loop_rooted:
  "rooted s n \<Longrightarrow>
     \<exists>xs. getAncestors_loop s n acc = Some (acc @ xs) \<and> set xs = {a. ancestor_or_self s a n}"
proof (induction arbitrary: acc rule: rooted.induct)
  case (root n)
  have "{a. ancestor_or_self s a n} = {n}"
    using root by (auto intro: ancestor_or_self.self dest: ancestor_or_self_root)
  then show ?case
    using root by (subst getAncestors_loop.simps) simp
next
  case (step n p)
  obtain xs where xs: "getAncestors_loop s p (acc @ [n]) = Some ((acc @ [n]) @ xs)"
      "set xs = {a. ancestor_or_self s a p}"
    using step.IH by blast
  have "{a. ancestor_or_self s a n} = insert n {a. ancestor_or_self s a p}"
    using ancestor_or_self_step [OF step.hyps(1)] by auto
  then show ?case
    using step.hyps(1) xs
    by (subst getAncestors_loop.simps) (auto intro!: exI [of _ "n # xs"])
qed

lemma getAncestors_rooted:
  "rooted s n \<Longrightarrow> \<exists>xs. getAncestors s n = Some xs \<and> set xs = {a. ancestor_or_self s a n}"
  using getAncestors_loop_rooted [of s n "[]"] by (simp add: getAncestors_def)

lemma indexOf_None_iff: "indexOf xs v = None \<longleftrightarrow> v \<notin> set xs"
  by (induction xs) auto

lemma inThisArray_iff: "inThisArray xs v \<longleftrightarrow> v \<in> set xs"
  by (simp add: inThisArray_def indexOf_None_iff)

lemma rooted_chain_state: "rooted chain_state 2"
proof -
  have "rooted chain_state 0"
    by (rule rooted.root) (simp add: chain_state_def)
  then have "rooted chain_state 1"
    by (rule rooted.step [rotated]) (simp add: chain_state_def)
  then show ?thesis
    by (rule rooted.step [rotated]) (simp add: chain_state_def)
qed

lemma ancestor_chain_state: "ancestor_or_self chain_state 0 2"
proof -
  have "ancestor_or_self chain_state 0 1"
    by (rule ancestor_or_self.up [OF _ ancestor_or_self.self]) (simp add: chain_state_def)
  then show ?thesis
    by (rule ancestor_or_self.up [rotated]) (simp add: chain_state_def)
qed

subsection \<open>Calls that change nothing\<close>

text \<open>
  C1.  Let the parent chain of the owner \<open>A\<close> end.  Then \<open>add\<close> of the empty
  array, \<open>add\<close> of \<open>A\<close> or of an ancestor of \<open>A\<close>, alone or as any element
  of an array, with or without an index, and \<open>remove\<close> of a node that is not in the
  children array of \<open>A\<close>, all return (no error, no divergence) and leave the whole
  state as it was: every children array, every parent and next reference, and the world
  of stage references and registry.
\<close>

theorem noop_calls_leave_state:
  "rooted s A \<Longrightarrow>
     add H A (Array []) i s = Some (Inr Undefined, s) \<and>
     (ancestor_or_self s c A \<longrightarrow> add H A (Single (Some c)) i s = Some (Inr Undefined, s)) \<and>
     (c \<in> set cs \<and> ancestor_or_self s c A \<longrightarrow> add H A (Array cs) i s = Some (Inr Undefined, s)) \<and>
     (Some d \<notin> set (children s A) \<longrightarrow> remove H A (Some d) s = (Inr Undefined, s))"
proof -
  assume "rooted s A"
  then obtain xs where xs: "getAncestors s A = Some xs" "set xs = {a. ancestor_or_self s a A}"
    using getAncestors_rooted by blast
  have 1: "add H A (Array []) i s = Some (Inr Undefined, s)"
    using xs by (simp add: add_def)
  have 2: "add H A (Single (Some c)) i s = Some (Inr Undefined, s)" if "ancestor_or_self s c A"
    using xs that by (simp add: add_def inThisArray_iff)
  have 3: "add H A (Array cs) i s = Some (Inr Undefined, s)"
    if "c \<in> set cs" "ancestor_or_self s c A"
  proof -
    have "list_ex (inThisArray xs) cs"
      using xs that by (auto simp: list_ex_iff inThisArray_iff)
    then show ?thesis
      using xs by (simp add: add_def)
  qed
  have 4: "remove H A (Some d) s = (Inr Undefined, s)" if "Some d \<notin> set (children s A)"
    using that by (simp add: remove_def indexOf_None_iff [THEN iffD2])
  show ?thesis
    using 1 2 3 4 by blast
qed

theorem noop_calls_leave_state_witness:
  "rooted chain_state 2 \<and> ancestor_or_self chain_state 0 2 \<and>
   add spec_hooks 2 (Array []) (Some (Num 1)) chain_state = Some (Inr Undefined, chain_state) \<and>
   add spec_hooks 2 (Single (Some 0)) (Some (Num 1)) chain_state = Some (Inr Undefined, chain_state) \<and>
   add spec_hooks 2 (Array [7, 0]) (Some (Num 1)) chain_state = Some (Inr Undefined, chain_state) \<and>
   Some 7 \<notin> set (children chain_state 2) \<and>
   remove spec_hooks 2 (Some 7) chain_state = (Inr Undefined, chain_state)"
proof -
  have 7: "Some 7 \<notin> set (children chain_state 2)"
    by (simp add: chain_state_def)
  show ?thesis
    using noop_calls_leave_state [OF rooted_chain_state, of spec_hooks "Some (Num 1)" 0 "[7, 0]" 7]
      rooted_chain_state ancestor_chain_state 7
    by simp
qed

subsection \<open>The mixin \<^verbatim>\<open>methods\<close>\<close>

text \<open>
  C7.  \<^verbatim>\<open>methods.removeChild\<close> calls \<^verbatim>\<open>this.displayList.removeChild\<close>
  and \<^verbatim>\<open>methods.getIndexOfChild\<close> calls
  \<^verbatim>\<open>this.displayList.getIndexOfChild\<close>.  A display list has neither: both calls
  end in a \<open>TypeError\<close>, for every owner, argument and state, and nothing is removed
  or returned.  Here the owner 2 of \<open>chain_state\<close> is asked to remove its child 3.
\<close>

theorem methods_removeChild_throws:
  "methods_call H this (RemoveChild child) s = Some (Inl TypeError, s) \<and>
   methods_call H this (GetIndexOfChild child) s = Some (Inl TypeError, s) \<and>
   children chain_state 2 = [Some 3, Some 4] \<and>
   methods_call spec_hooks 2 (RemoveChild (Some 3)) chain_state = Some (Inl TypeError, chain_state)"
  by (simp add: methods_removeChild_def methods_getIndexOfChild_def dl_call_def
      DisplayList_property_def return_this_def chain_state_def)

lemma return_this_Inl:
  "return_this this r = Some (Inl e, s') \<Longrightarrow> r = Some (Inl e, s')"
  by (auto simp: return_this_def split: option.splits prod.splits sum.splits)

lemma remove_not_Thrown: "remove H owner d s \<noteq> (Inl (Thrown m), s')"
  by (auto simp: remove_def Let_def split: option.splits if_splits prod.splits
      dest: call_deactivate_TypeError)

lemma add_loop_not_Thrown: "add_loop H owner k i nextChild s \<noteq> (Inl (Thrown m), s')"
proof (induction k arbitrary: i nextChild s)
  case 0
  show ?case by simp
next
  case (Suc k)
  show ?case
    using Suc.IH remove_not_Thrown [of H _ _ s m]
    by (auto simp: Let_def split: option.splits prod.splits sum.splits
        dest: call_activate_TypeError)
qed

lemma add_not_Thrown: "add H owner child insertAt s \<noteq> Some (Inl (Thrown m), s')"
  using add_loop_not_Thrown [of H owner _ _ None _ m s']
  by (auto simp: add_def Let_def split: option.splits if_splits)

lemma clear_loop_TypeError: "clear_loop H owner i s = (Some e, s') \<Longrightarrow> e = TypeError"
proof (induction H owner i s rule: clear_loop.induct)
  case (1 H owner i s)
  show ?case
  proof (cases "elem_at (children s owner) i")
    case None
    then show ?thesis
      using "1.prems" by (subst (asm) clear_loop.simps) simp
  next
    case (Some child)
    obtain r w1 where c: "call_deactivate H child (world s) = (r, w1)"
      by (cases "call_deactivate H child (world s)")
    show ?thesis
    proof (cases r)
      case None
      then show ?thesis
        using "1.prems" "1.IH" [OF Some c [symmetric, unfolded None] refl] Some c
        by (subst (asm) clear_loop.simps) simp
    next
      case (Some e')
      then show ?thesis
        using "1.prems" \<open>elem_at (children s owner) i = Some child\<close> c
          call_deactivate_TypeError [of H child "world s" e' w1]
        by (subst (asm) clear_loop.simps) simp
    qed
  qed
qed

lemma clear_not_Thrown: "clear H owner s \<noteq> (Inl (Thrown m), s')"
  by (auto simp: clear_def split: prod.splits option.splits dest: clear_loop_TypeError)

lemma methods_children_not_Thrown:
  "methods_children H this newChildren s \<noteq> Some (Inl (Thrown m), s')"
proof (cases newChildren)
  case None
  then show ?thesis by (simp add: methods_children_def)
next
  case (Some new)
  obtain r s1 where c: "clear H this s = (r, s1)"
    by (cases "clear H this s")
  show ?thesis
  proof (cases r)
    case (Inl e)
    then have "e \<noteq> Thrown m \<or> s1 \<noteq> s'"
      using c clear_not_Thrown [of H this s m s'] by auto
    then show ?thesis
      using Some c Inl by (auto simp: methods_children_def)
  next
    case (Inr v)
    then have "methods_children H this newChildren s = return_this this (add H this new None s1)"
      using Some c by (simp add: methods_children_def)
    then show ?thesis
      using add_not_Thrown [of H this new None s1 m s']
      by (auto dest: return_this_Inl)
  qed
qed

text \<open>
  C8.  \<^verbatim>\<open>methods.getComputed\<close> throws the string
  \<^verbatim>\<open>'implement me'\<close> for every key, owner and state, and changes nothing.
  No other call of the mixin surface ends in a \<^verbatim>\<open>throw\<close> of the source: a
  call that ends in \<open>Thrown\<close> is a call of \<^verbatim>\<open>getComputed\<close>.  (The
  thrown value is a string, which is distinct from the engine's \<open>TypeError\<close>.)
\<close>

theorem getComputed_only_throw:
  "methods_call H this (GetComputed key) s = Some (Inl (Thrown ''implement me''), s) \<and>
   (methods_call H this call s = Some (Inl (Thrown m), s') \<longrightarrow> (\<exists>k. call = GetComputed k))"
proof -
  have "\<exists>k. call = GetComputed k"
    if "methods_call H this call s = Some (Inl (Thrown m), s')"
  proof (cases call)
    case (AddChild child index)
    then show ?thesis
      using that add_not_Thrown [of H this child "Some index" s m s']
      by (auto simp: methods_addChild_def dest: return_this_Inl)
  next
    case (Children newChildren)
    then show ?thesis
      using that methods_children_not_Thrown [of H this newChildren s m s'] by simp
  next
    case Clear
    then show ?thesis
      using that clear_not_Thrown [of H this s m s']
      by (auto simp: methods_clear_def dest: return_this_Inl)
  next
    case (GetComputed k)
    then show ?thesis by simp
  next
    case (GetIndexOfChild child)
    then show ?thesis
      using that
      by (simp add: methods_getIndexOfChild_def dl_call_def DisplayList_property_def)
  next
    case (RemoveChild child)
    then show ?thesis
      using that
      by (auto simp: methods_removeChild_def dl_call_def DisplayList_property_def
          dest: return_this_Inl)
  qed
  then show ?thesis
    by (simp add: methods_getComputed_def)
qed

theorem getComputed_only_throw_witness:
  "methods_call spec_hooks 2 (GetComputed ''size'') chain_state =
     Some (Inl (Thrown ''implement me''), chain_state) \<and>
   (\<exists>k. GetComputed ''size'' = GetComputed k)"
  using getComputed_only_throw [of spec_hooks 2 "''size''" chain_state "GetComputed ''size''"
      "''implement me''" chain_state]
  by simp

subsection \<open>\<^verbatim>\<open>remove\<close> of a child\<close>

text \<open>
  Let \<open>d\<close> be a plain display object that stands in the children array of \<open>A\<close>
  after the nodes \<open>pre\<close>, none of which is \<open>d\<close>.  Then \<open>remove\<close> of
  \<open>d\<close> returns, splices \<open>d\<close> out of the array, gives the node before
  \<open>d\<close> (when there is one) the former next reference of \<open>d\<close>, clears the
  parent and next references of \<open>d\<close>, deactivates \<open>d\<close>, and changes no other
  parent or next reference and no other array.
\<close>

lemma remove_plain_child:
  "children s A = map Some pre @ Some d # post \<Longrightarrow> d \<notin> set pre \<Longrightarrow> h_kind H d = Plain \<Longrightarrow>
     (case remove H A (Some d) s of (r, s') \<Rightarrow>
        r = Inr Undefined \<and>
        children s' A = map Some pre @ post \<and>
        (pre \<noteq> [] \<longrightarrow> nxt s' (last pre) = nxt s d) \<and>
        nxt s' d = None \<and> parent s' d = None \<and>
        world s' = h_deactivate H d (world s) \<and>
        (\<forall>n. n \<noteq> d \<longrightarrow> parent s' n = parent s n) \<and>
        (\<forall>n. n \<noteq> d \<and> (pre = [] \<or> n \<noteq> last pre) \<longrightarrow> nxt s' n = nxt s n) \<and>
        (\<forall>n. n \<noteq> A \<longrightarrow> children s' n = children s n) \<and>
        (pre = [a] \<and> post = [Some c] \<and> nxt s d = Some c \<longrightarrow>
           children s' A = [Some a, Some c] \<and> nxt s' a = Some c))"
proof -
  assume cs: "children s A = map Some pre @ Some d # post" and d: "d \<notin> set pre"
    and plain: "h_kind H d = Plain"
  have "pre \<noteq> [] \<Longrightarrow> last pre \<noteq> d"
    using d last_in_set by metis
  then show ?thesis
    by (auto simp: remove_first_occurrence [OF cs d plain])
qed

text \<open>
  C4.  The owner 0 of \<open>abc_state\<close> has the children \<open>[1, 2, 3]\<close>, linked in
  order.  When node 2 is a plain display object (\<open>spec_hooks\<close>), \<open>remove\<close> of
  node 2 returns and leaves the children \<open>[1, 3]\<close> with \<open>1.next = 3\<close> and the
  parent and next references of node 2 cleared.  When node 2 is a container that carries
  the mixin \<^verbatim>\<open>methods\<close> (\<open>group_hooks 2\<close>), its \<^verbatim>\<open>_deactivate\<close> is
  \<^verbatim>\<open>deactivate\<close> of lines 136-142, and \<open>remove\<close> of node 2 ends in a
  \<open>TypeError\<close> at line 123: the references are rewired and cleared as before, but
  the splice of line 124 is not reached and the children are still \<open>[1, 2, 3]\<close>.
\<close>

theorem remove_container_child_throws:
  "children abc_state 0 = [Some 1, Some 2, Some 3] \<and> nxt abc_state 2 = Some 3 \<and>
   h_kind spec_hooks 2 = Plain \<and>
   fst (remove spec_hooks 0 (Some 2) abc_state) = Inr Undefined \<and>
   children (snd (remove spec_hooks 0 (Some 2) abc_state)) 0 = [Some 1, Some 3] \<and>
   nxt (snd (remove spec_hooks 0 (Some 2) abc_state)) 1 = Some 3 \<and>
   h_kind (group_hooks 2) 2 = Container \<and>
   fst (remove (group_hooks 2) 0 (Some 2) abc_state) = Inl TypeError \<and>
   children (snd (remove (group_hooks 2) 0 (Some 2) abc_state)) 0 = [Some 1, Some 2, Some 3] \<and>
   nxt (snd (remove (group_hooks 2) 0 (Some 2) abc_state)) 1 = Some 3 \<and>
   nxt (snd (remove (group_hooks 2) 0 (Some 2) abc_state)) 2 = None \<and>
   parent (snd (remove (group_hooks 2) 0 (Some 2) abc_state)) 2 = None"
proof -
  have cs: "children abc_state 0 = map Some [1] @ Some 2 # [Some 3]"
    by (simp add: abc_state_def)
  have n: "2 \<notin> set [1::nat]"
    by simp
  have x: "nxt abc_state 2 = Some 3"
    by (simp add: abc_state_def)
  have plain: "h_kind spec_hooks 2 = Plain"
    by (simp add: spec_hooks_def)
  have group: "h_kind (group_hooks 2) 2 = Container"
    by (simp add: group_hooks_def)
  then have mixin: "h_kind (group_hooks 2) 2 \<noteq> Plain"
    by simp
  show ?thesis
    using cs x plain group
    by (simp add: remove_first_occurrence [OF cs n plain] remove_mixin_child [OF cs n mixin])
qed

subsection \<open>\<^verbatim>\<open>add\<close> of nodes that are not children of the owner\<close>

lemma consistentD:
  "consistent s p \<Longrightarrow> r \<in> set (children s p) \<Longrightarrow> \<exists>n. r = Some n \<and> parent s n = Some p"
  by (auto simp: consistent_def list_all_iff split: option.splits)

lemma consistent_distinct: "consistent s p \<Longrightarrow> distinct (children s p)"
  by (simp add: consistent_def)

lemma consistentI:
  "distinct (children s p) \<Longrightarrow> (\<And>r. r \<in> set (children s p) \<Longrightarrow> \<exists>n. r = Some n \<and> parent s n = Some p)
     \<Longrightarrow> consistent s p"
  by (fastforce simp: consistent_def list_all_iff split: option.splits)

lemma chain_Cons: "chain nx (a # zs) e = (nx a = (case zs of [] \<Rightarrow> e | b # _ \<Rightarrow> Some b) \<and> chain nx zs e)"
  by (cases zs) auto




lemma remove_effect:
  assumes "consistent s p0" and plain: "h_kind H c = Plain"
  shows "\<exists>s1. remove H p0 (Some c) s = (Inr Undefined, s1) \<and>
           (\<forall>p. p \<noteq> p0 \<longrightarrow> children s1 p = children s p) \<and>
           set (children s1 p0) = set (children s p0) - {Some c} \<and>
           distinct (children s1 p0) \<and>
           (\<forall>n. n \<noteq> c \<longrightarrow> parent s1 n = parent s n) \<and>
           (\<forall>n. n \<noteq> c \<and> Some n \<notin> set (children s p0) \<longrightarrow> nxt s1 n = nxt s n)"
proof (cases "Some c \<in> set (children s p0)")
  case False
  then have "remove H p0 (Some c) s = (Inr Undefined, s)"
    by (simp add: remove_def indexOf_None_iff [THEN iffD2])
  then show ?thesis
    using False assms(1) by (auto simp: consistent_distinct)
next
  case True
  then obtain xs ys where split: "children s p0 = xs @ Some c # ys" "Some c \<notin> set xs"
    by (meson split_list_first)
  have some: "\<forall>r\<in>set xs. r \<noteq> None"
    using consistentD [OF assms(1)] split by auto
  then have xs: "xs = map Some (map the xs)"
    by (induction xs) auto
  define pre where "pre = map the xs"
  have cs: "children s p0 = map Some pre @ Some c # ys"
    using split xs by (simp add: pre_def)
  have c: "c \<notin> set pre"
  proof
    assume "c \<in> set pre"
    then obtain x where "x \<in> set xs" "c = the x"
      by (auto simp: pre_def)
    then have "Some c \<in> set xs"
      using some by (cases x) auto
    then show False
      using split by simp
  qed
  have dist: "distinct (map Some pre @ Some c # ys)"
    using consistent_distinct [OF assms(1)] cs by simp
  have last: "pre \<noteq> [] \<Longrightarrow> Some (last pre) \<in> set (children s p0)"
    using cs by auto
  show ?thesis
    unfolding remove_first_occurrence [OF cs c plain]
    using dist cs last by (auto simp: distinct_map)
qed

lemma detach_effect:
  assumes A: "parent s c \<noteq> Some A" and cons: "\<forall>p. parent s c = Some p \<longrightarrow> consistent s p"
    and plain: "h_kind H c = Plain"
  shows "\<exists>s1. (case parent s c of None \<Rightarrow> (Inr Undefined, s)
                | Some previousParent \<Rightarrow> remove H previousParent (Some c) s) = (Inr Undefined, s1) \<and>
           children s1 A = children s A \<and>
           (\<forall>p. set (children s1 p) \<subseteq> set (children s p)) \<and>
           (\<forall>p. distinct (children s p) \<longrightarrow> distinct (children s1 p)) \<and>
           (\<forall>p. parent s c = Some p \<longrightarrow> Some c \<notin> set (children s1 p)) \<and>
           (\<forall>n. n \<noteq> c \<longrightarrow> parent s1 n = parent s n) \<and>
           (\<forall>n. parent s n = Some A \<longrightarrow> nxt s1 n = nxt s n)"
proof (cases "parent s c")
  case None
  then show ?thesis by simp
next
  case (Some p0)
  then have p0: "p0 \<noteq> A" and c0: "consistent s p0"
    using A cons by auto
  obtain s1 where s1: "remove H p0 (Some c) s = (Inr Undefined, s1)"
      "\<forall>p. p \<noteq> p0 \<longrightarrow> children s1 p = children s p"
      "set (children s1 p0) = set (children s p0) - {Some c}"
      "distinct (children s1 p0)"
      "\<forall>n. n \<noteq> c \<longrightarrow> parent s1 n = parent s n"
      "\<forall>n. n \<noteq> c \<and> Some n \<notin> set (children s p0) \<longrightarrow> nxt s1 n = nxt s n"
    using remove_effect [OF c0 plain] by blast
  have sub: "set (children s1 p) \<subseteq> set (children s p)" for p
    using s1(2,3) by (cases "p = p0") auto
  have dist: "distinct (children s p) \<longrightarrow> distinct (children s1 p)" for p
    using s1(2,4) by (cases "p = p0") auto
  have frame: "nxt s1 n = nxt s n" if "parent s n = Some A" for n
  proof -
    have "n \<noteq> c"
      using that A by auto
    moreover have "Some n \<notin> set (children s p0)"
      using consistentD [OF c0, of "Some n"] that p0 by auto
    ultimately show ?thesis
      using s1(6) by simp
  qed
  show ?thesis
    using Some s1(1) s1(2) [rule_format, OF p0 [symmetric]] s1(3) s1(5) sub dist frame
    by (intro exI [of _ s1]) auto
qed

lemma add_loop_fresh:
  assumes "children s A = pre @ map Some todo @ post"
    and "i = length pre"
    and "nextChild = None \<or> nextChild = elem_at (children s A) i"
    and "distinct todo"
    and "\<forall>c\<in>set todo. parent s c \<noteq> Some A \<and> (\<forall>p. parent s c = Some p \<longrightarrow> consistent s p)"
    and "\<forall>c\<in>set todo. h_kind H c = Plain"
  shows "\<exists>s'. add_loop H A (length todo) i nextChild s = (Inr Undefined, s') \<and>
           children s' A = children s A \<and>
           (\<forall>c\<in>set todo. parent s' c = Some A) \<and>
           (\<forall>n. n \<notin> set todo \<longrightarrow> parent s' n = parent s n) \<and>
           (\<forall>n. parent s n = Some A \<longrightarrow> nxt s' n = nxt s n) \<and>
           chain (nxt s') todo (elem_at post 0) \<and>
           (\<forall>p. p \<noteq> A \<longrightarrow> set (children s' p) \<subseteq> set (children s p)) \<and>
           (\<forall>c\<in>set todo. \<forall>p. parent s c = Some p \<longrightarrow> Some c \<notin> set (children s' p))"
  using assms
proof (induction todo arbitrary: s pre i nextChild)
  case Nil
  then show ?case by simp
next
  case (Cons c rest)
  have cs: "children s A = pre @ Some c # map Some rest @ post" and i: "i = length pre"
    using Cons.prems(1,2) by simp_all
  have at_i: "elem_at (children s A) i = Some c"
    using cs i by (simp add: elem_at_append)
  then have child: "(case nextChild of Some c \<Rightarrow> Some c | None \<Rightarrow> elem_at (children s A) i) = Some c"
    using Cons.prems(3) by auto
  have cA: "parent s c \<noteq> Some A" and ccons: "\<forall>p. parent s c = Some p \<longrightarrow> consistent s p"
    using Cons.prems(5) by auto
  have plain: "h_kind H c = Plain" and p6: "\<forall>c'\<in>set rest. h_kind H c' = Plain"
    using Cons.prems(6) by auto
  obtain s1 where s1:
      "(case parent s c of None \<Rightarrow> (Inr Undefined, s)
        | Some previousParent \<Rightarrow> remove H previousParent (Some c) s) = (Inr Undefined, s1)"
      "children s1 A = children s A"
      "\<forall>p. set (children s1 p) \<subseteq> set (children s p)"
      "\<forall>p. distinct (children s p) \<longrightarrow> distinct (children s1 p)"
      "\<forall>p. parent s c = Some p \<longrightarrow> Some c \<notin> set (children s1 p)"
      "\<forall>n. n \<noteq> c \<longrightarrow> parent s1 n = parent s n"
      "\<forall>n. parent s n = Some A \<longrightarrow> nxt s1 n = nxt s n"
    using detach_effect [OF cA ccons plain] by blast
  define nc where "nc = elem_at (children s1 A) (i + 1)"
  define s2 where "s2 = set_parent c (Some A) (set_next c nc s1)"
  define s3 where "s3 = set_world (h_activate H c (h_stage H (world s2) A) (world s2)) s2"
  have step: "add_loop H A (length (c # rest)) i nextChild s = add_loop H A (length rest) (i + 1) nc s3"
    using child s1(1)
    by (simp add: Let_def nc_def s2_def s3_def call_activate_Plain [OF plain])
  have ch3: "children s3 = children s1" and par3: "parent s3 = (parent s1)(c := Some A)"
    and nxt3: "nxt s3 = (nxt s1)(c := nc)"
    by (simp_all add: s3_def s2_def)
  have nc: "nc = (case rest of [] \<Rightarrow> elem_at post 0 | b # _ \<Rightarrow> Some b)"
    using cs i s1(2) by (cases rest) (simp_all add: nc_def elem_at_append)
  have p1: "children s3 A = (pre @ [Some c]) @ map Some rest @ post"
    using cs s1(2) ch3 by simp
  have p2: "i + 1 = length (pre @ [Some c])"
    using i by simp
  have p3: "nc = None \<or> nc = elem_at (children s3 A) (i + 1)"
    by (simp add: nc_def ch3)
  have p4: "distinct rest" and c_rest: "c \<notin> set rest"
    using Cons.prems(4) by simp_all
  have p5: "\<forall>c'\<in>set rest. parent s3 c' \<noteq> Some A \<and> (\<forall>p. parent s3 c' = Some p \<longrightarrow> consistent s3 p)"
  proof (intro ballI conjI allI impI)
    fix c' assume c': "c' \<in> set rest"
    then have ne: "c' \<noteq> c"
      using c_rest by auto
    then have par: "parent s3 c' = parent s c'"
      using s1(6) by (simp add: par3)
    show "parent s3 c' \<noteq> Some A"
      using Cons.prems(5) c' par by simp
    fix p assume "parent s3 c' = Some p"
    then have pp: "parent s c' = Some p"
      using par by simp
    then have cons: "consistent s p" and pA: "p \<noteq> A"
      using Cons.prems(5) c' by auto
    show "consistent s3 p"
    proof (rule consistentI)
      show "distinct (children s3 p)"
        using s1(4) consistent_distinct [OF cons] by (simp add: ch3)
      fix r assume "r \<in> set (children s3 p)"
      then have r1: "r \<in> set (children s1 p)" and r: "r \<in> set (children s p)"
        using s1(3) by (auto simp: ch3)
      then obtain n where n: "r = Some n" "parent s n = Some p"
        using consistentD [OF cons] by blast
      have "n \<noteq> c"
        using s1(5) n r1 by auto
      then have "parent s3 n = Some p"
        using n s1(6) by (simp add: par3)
      then show "\<exists>n. r = Some n \<and> parent s3 n = Some p"
        using n by blast
    qed
  qed
  obtain s' where s':
      "add_loop H A (length rest) (i + 1) nc s3 = (Inr Undefined, s')"
      "children s' A = children s3 A"
      "\<forall>c\<in>set rest. parent s' c = Some A"
      "\<forall>n. n \<notin> set rest \<longrightarrow> parent s' n = parent s3 n"
      "\<forall>n. parent s3 n = Some A \<longrightarrow> nxt s' n = nxt s3 n"
      "chain (nxt s') rest (elem_at post 0)"
      "\<forall>p. p \<noteq> A \<longrightarrow> set (children s' p) \<subseteq> set (children s3 p)"
      "\<forall>c\<in>set rest. \<forall>p. parent s3 c = Some p \<longrightarrow> Some c \<notin> set (children s' p)"
    using Cons.IH [OF p1 p2 p3 p4 p5 p6] by blast
  have c1: "children s' A = children s A"
    using s'(2) s1(2) by (simp add: ch3)
  have c2: "\<forall>x\<in>set (c # rest). parent s' x = Some A"
    using s'(3) s'(4) c_rest by (auto simp: par3)
  have c3: "\<forall>n. n \<notin> set (c # rest) \<longrightarrow> parent s' n = parent s n"
    using s'(4) s1(6) by (auto simp: par3)
  have c4: "\<forall>n. parent s n = Some A \<longrightarrow> nxt s' n = nxt s n"
  proof (intro allI impI)
    fix n assume n: "parent s n = Some A"
    then have ne: "n \<noteq> c"
      using cA by auto
    then have "parent s3 n = Some A"
      using n s1(6) by (simp add: par3)
    then have "nxt s' n = nxt s3 n"
      using s'(5) by simp
    then show "nxt s' n = nxt s n"
      using ne s1(7) n by (simp add: nxt3)
  qed
  have "nxt s' c = nc"
    using s'(5) by (simp add: par3 nxt3)
  then have c5: "chain (nxt s') (c # rest) (elem_at post 0)"
    using s'(6) nc by (simp add: chain_Cons)
  have c6: "\<forall>p. p \<noteq> A \<longrightarrow> set (children s' p) \<subseteq> set (children s p)"
    using s'(7) s1(3) by (fastforce simp: ch3)
  have c7: "\<forall>x\<in>set (c # rest). \<forall>p. parent s x = Some p \<longrightarrow> Some x \<notin> set (children s' p)"
  proof (intro ballI allI impI)
    fix x p assume x: "x \<in> set (c # rest)" and p: "parent s x = Some p"
    show "Some x \<notin> set (children s' p)"
    proof (cases "x = c")
      case True
      then have "p \<noteq> A" and "Some c \<notin> set (children s1 p)"
        using p cA s1(5) by auto
      then show ?thesis
        using s'(7) True by (auto simp: ch3)
    next
      case False
      then have "x \<in> set rest" and "parent s3 x = Some p"
        using x p s1(6) by (auto simp: par3)
      then show ?thesis
        using s'(8) by blast
    qed
  qed
  show ?case
    unfolding step using s'(1) c1 c2 c3 c4 c5 c6 c7 by blast
qed

lemma consistent_cong:
  "children s' p = children s p \<Longrightarrow> parent s' = parent s \<Longrightarrow> consistent s' p = consistent s p"
  by (simp add: consistent_def cong: option.case_cong)

lemma resolve_insertAt_le: "resolve_insertAt i n \<le> n"
  by (simp add: resolve_insertAt_def split: option.splits)

lemma add_fresh_aux:
  assumes root: "rooted s A" and addable: "addable s A cs"
    and child: "child = Array cs \<or> (\<exists>c. cs = [c] \<and> child = Single (Some c))"
    and k: "k = resolve_insertAt i (length (children s A))"
    and plain: "\<forall>c\<in>set cs. h_kind H c = Plain"
  shows "\<exists>s'. add H A child i s = Some (Inr Undefined, s') \<and>
           children s' A = take k (children s A) @ map Some cs @ drop k (children s A) \<and>
           (\<forall>c\<in>set cs. parent s' c = Some A) \<and>
           (\<forall>n. n \<notin> set cs \<longrightarrow> parent s' n = parent s n) \<and>
           (\<forall>n. parent s n = Some A \<and> (k = 0 \<or> elem_at (children s A) (k - 1) \<noteq> Some n)
                 \<longrightarrow> nxt s' n = nxt s n) \<and>
           (0 < k \<longrightarrow> (\<exists>p. elem_at (children s A) (k - 1) = Some p \<and> nxt s' p = Some (hd cs))) \<and>
           chain (nxt s') cs (elem_at (children s A) k) \<and>
           (\<forall>p. p \<noteq> A \<longrightarrow> set (children s' p) \<subseteq> set (children s p)) \<and>
           (\<forall>c\<in>set cs. \<forall>p. parent s c = Some p \<longrightarrow> Some c \<notin> set (children s' p))"
proof -
  obtain anc where anc: "getAncestors s A = Some anc" "set anc = {a. ancestor_or_self s a A}"
    using getAncestors_rooted [OF root] by blast
  define old where "old = children s A"
  have cs: "cs \<noteq> []" "distinct cs" and consA: "consistent s A"
    and each: "\<forall>c\<in>set cs. \<not> ancestor_or_self s c A \<and> parent s c \<noteq> Some A \<and>
                 (\<forall>p. parent s c = Some p \<longrightarrow> consistent s p)"
    using addable by (auto simp: addable_def list_all_iff)
  have kle: "k \<le> length old"
    using k by (simp add: old_def resolve_insertAt_le)
  define new where "new = map Some cs"
  define s1 where "s1 = set_children A (take k old @ new @ drop k old) s"
  have g1: "\<not> (case child of Single c \<Rightarrow> (case c of Some n \<Rightarrow> inThisArray anc n | None \<Rightarrow> False)
                | Array _ \<Rightarrow> False)"
    using child each anc(2) by (auto simp: inThisArray_iff)
  have g2: "\<not> (case child of Array cs \<Rightarrow> list_ex (inThisArray anc) cs | Single _ \<Rightarrow> False)"
    using child each anc(2) by (auto simp: inThisArray_iff list_ex_iff)
  have num: "(case child of Array cs \<Rightarrow> length cs | Single _ \<Rightarrow> 1) = length cs"
    using child by auto
  have new: "(case child of Array cs \<Rightarrow> map Some cs | Single c \<Rightarrow> [c]) = new"
    using child by (auto simp: new_def)
  have hd_new: "hd new = Some (hd cs)"
    using cs(1) by (simp add: new_def hd_map)
  define s2 where "s2 = (if 0 < k then set_next (the (old ! (k - 1))) (Some (hd cs)) s1 else s1)"
  have pred: "\<exists>p. old ! (k - 1) = Some p \<and> elem_at old (k - 1) = Some p \<and> parent s p = Some A"
    if "0 < k"
  proof -
    have "old ! (k - 1) \<in> set (children s A)"
      using that kle by (simp add: old_def)
    then obtain p where "old ! (k - 1) = Some p" "parent s p = Some A"
      using consistentD [OF consA] by blast
    then show ?thesis
      using that kle by (simp add: elem_at_def)
  qed
  have link: "(if 0 < k
               then (case elem_at (children s1 A) (k - 1) of None \<Rightarrow> None
                     | Some previous \<Rightarrow> Some (set_next previous (hd new) s1))
               else Some s1) = Some s2"
  proof (cases "0 < k")
    case True
    then obtain p where p: "elem_at old (k - 1) = Some p" and "old ! (k - 1) = Some p"
      using pred by blast
    moreover have "elem_at (children s1 A) (k - 1) = Some p"
      using True kle \<open>old ! (k - 1) = Some p\<close> by (simp add: s1_def elem_at_append)
    ultimately show ?thesis
      using True by (simp add: s2_def hd_new)
  next
    case False
    then show ?thesis by (simp add: s2_def)
  qed
  have k': "resolve_insertAt i (length old) = k"
    using k by (simp add: old_def)
  have add_eq: "add H A child i s = Some (add_loop H A (length cs) k None s2)"
  proof (cases "0 < k")
    case True
    then obtain p where p: "old ! (k - 1) = Some p"
      using pred by blast
    then have e: "elem_at (take k old @ new @ drop k old) (k - Suc 0) = Some p"
      using True kle by (simp add: elem_at_append)
    show ?thesis
      using g1 g2 cs(1) True p
      by (simp add: add_def Let_def anc(1) num new old_def [symmetric] k' e s2_def s1_def hd_new)
  next
    case False
    then show ?thesis
      using g1 g2 cs(1)
      by (simp add: add_def Let_def anc(1) num new old_def [symmetric] k' s2_def s1_def)
  qed
  have ch2: "children s2 = (children s)(A := take k old @ new @ drop k old)"
    and par2: "parent s2 = parent s"
    by (simp_all add: s2_def s1_def)
  have l1: "children s2 A = take k old @ map Some cs @ drop k old"
    by (simp add: ch2 new_def)
  have l2: "k = length (take k old)"
    using kle by simp
  have l5: "\<forall>c\<in>set cs. parent s2 c \<noteq> Some A \<and> (\<forall>p. parent s2 c = Some p \<longrightarrow> consistent s2 p)"
  proof (intro ballI conjI allI impI)
    fix c assume c: "c \<in> set cs"
    show "parent s2 c \<noteq> Some A"
      using each c by (simp add: par2)
    fix p assume "parent s2 c = Some p"
    then have "parent s c = Some p" "p \<noteq> A" "consistent s p"
      using each c by (auto simp: par2)
    then show "consistent s2 p"
      using consistent_cong [of s2 p s] by (simp add: ch2 par2)
  qed
  obtain s' where s':
      "add_loop H A (length cs) k None s2 = (Inr Undefined, s')"
      "children s' A = children s2 A"
      "\<forall>c\<in>set cs. parent s' c = Some A"
      "\<forall>n. n \<notin> set cs \<longrightarrow> parent s' n = parent s2 n"
      "\<forall>n. parent s2 n = Some A \<longrightarrow> nxt s' n = nxt s2 n"
      "chain (nxt s') cs (elem_at (drop k old) 0)"
      "\<forall>p. p \<noteq> A \<longrightarrow> set (children s' p) \<subseteq> set (children s2 p)"
      "\<forall>c\<in>set cs. \<forall>p. parent s2 c = Some p \<longrightarrow> Some c \<notin> set (children s' p)"
    using add_loop_fresh [OF l1 l2 _ cs(2) l5 plain, of None] by blast
  have r5: "nxt s' n = nxt s n"
    if "parent s n = Some A" "k = 0 \<or> elem_at (children s A) (k - 1) \<noteq> Some n" for n
  proof -
    have "nxt s' n = nxt s2 n"
      using s'(5) that(1) by (simp add: par2)
    moreover have "nxt s2 n = nxt s n"
    proof (cases "0 < k")
      case True
      then obtain p where p: "elem_at old (k - 1) = Some p" and "old ! (k - 1) = Some p"
        using pred by blast
      then show ?thesis
        using True that(2) p by (auto simp: s2_def s1_def old_def)
    next
      case False
      then show ?thesis by (simp add: s2_def s1_def)
    qed
    ultimately show ?thesis by simp
  qed
  have r6: "\<exists>p. elem_at (children s A) (k - 1) = Some p \<and> nxt s' p = Some (hd cs)" if k0: "0 < k"
  proof -
    obtain p where p: "elem_at old (k - 1) = Some p" "parent s p = Some A"
      and "old ! (k - 1) = Some p"
      using pred [OF k0] by blast
    then have "nxt s2 p = Some (hd cs)"
      using k0 by (simp add: s2_def)
    then have "nxt s' p = Some (hd cs)"
      using s'(5) p(2) by (simp add: par2)
    then show ?thesis
      using p(1) by (auto simp: old_def)
  qed
  have "elem_at (drop k old) 0 = elem_at old k"
    using kle by (auto simp: elem_at_def)
  then have r7: "chain (nxt s') cs (elem_at (children s A) k)"
    using s'(6) by (simp add: old_def)
  have r8: "\<forall>p. p \<noteq> A \<longrightarrow> set (children s' p) \<subseteq> set (children s p)"
    using s'(7) by (simp add: ch2)
  show ?thesis
    unfolding add_eq
    using s'(1) s'(2) s'(3) s'(4) s'(8) r5 r6 r7 r8
    by (intro exI [of _ s']) (simp add: l1 par2 old_def)
qed


subsection \<open>The example states\<close>





lemma getAncestors_chain_state: "getAncestors chain_state 2 = Some [2, 1, 0]"
  by (simp add: getAncestors_def getAncestors_loop.simps chain_state_def)

lemma getAncestors_abc_state: "getAncestors abc_state 0 = Some [0]"
  by (simp add: getAncestors_def getAncestors_loop.simps abc_state_def)

lemma ancestors_chain_state: "ancestor_or_self chain_state a 2 \<longleftrightarrow> a \<in> {2, 1, 0}"
  using getAncestors_rooted [OF rooted_chain_state] getAncestors_chain_state by auto

lemma addable_chain_state: "addable chain_state 2 [7]"
proof -
  have "consistent chain_state 2"
    by (simp add: consistent_def chain_state_def)
  moreover have "parent chain_state 7 = None"
    by (simp add: chain_state_def)
  ultimately show ?thesis
    by (simp add: addable_def ancestors_chain_state)
qed

subsection \<open>Order of the children after \<^verbatim>\<open>add\<close>\<close>




subsection \<open>The insertion index\<close>

lemma ToUint32_nonneg: "0 \<le> q \<Longrightarrow> q < 2 ^ 32 \<Longrightarrow> ToUint32 (Num q) = nat \<lfloor>q\<rfloor>"
proof -
  assume q: "0 \<le> q" "q < 2 ^ 32"
  have "0 \<le> \<lfloor>q\<rfloor>" "\<lfloor>q\<rfloor> < 2 ^ 32"
    using q by (simp_all add: floor_less_iff)
  then show ?thesis
    using q by (simp add: ToUint32_def trunc_def)
qed

lemma ToUint32_small_negative: "- 1 < q \<Longrightarrow> q < 0 \<Longrightarrow> ToUint32 (Num q) = 0"
proof -
  assume q: "- 1 < q" "q < 0"
  have "\<lfloor>- q\<rfloor> = 0"
    using q by (simp add: floor_eq_iff)
  then show ?thesis
    using q by (simp add: ToUint32_def trunc_def)
qed

lemma ToUint32_negative:
  "- (2 ^ 32) < q \<Longrightarrow> q \<le> - 1 \<Longrightarrow> ToUint32 (Num q) = nat (2 ^ 32 - \<lfloor>- q\<rfloor>)"
proof -
  assume q: "- (2 ^ 32) < q" "q \<le> - 1"
  define m where "m = \<lfloor>- q\<rfloor>"
  have m: "1 \<le> m" "m < 2 ^ 32"
    using q by (simp_all add: m_def le_floor_iff floor_less_iff)
  have "(- m) mod 2 ^ 32 = 2 ^ 32 - m"
    using m by (simp add: zmod_zminus1_eq_if)
  then show ?thesis
    using q by (simp add: ToUint32_def trunc_def m_def)
qed

text \<open>
  C6, as amended.  Let the parent chain of the owner end.  With an index \<open>i\<close>
  passed, \<open>add\<close> of addable nodes that are plain display objects returns and inserts
  them at \<open>k = min (ToUint32 i) L\<close>, where \<open>L\<close> is the length of the children
  array and \<open>ToUint32\<close> (\<^verbatim>\<open>i >>> 0\<close>) truncates towards zero and reduces
  modulo \<open>2 ^ 32\<close>.  For \<open>0 \<le> i < 2 ^ 32\<close> this is the truncated index, cut down
  to \<open>L\<close>; for \<open>-1 < i < 0\<close>, \<^verbatim>\<open>undefined\<close>, \<^verbatim>\<open>NaN\<close>
  and the infinities it is 0.  A negative index \<open>i \<le> -1\<close> is not raised to 0: it
  wraps to \<open>2 ^ 32 - \<lfloor>-i\<rfloor>\<close>, so the nodes are appended at \<open>L\<close> whenever
  \<open>L\<close> is at most that number.
\<close>

theorem add_index_resolution:
  "rooted s A \<Longrightarrow> addable s A cs \<Longrightarrow> \<forall>c\<in>set cs. h_kind H c = Plain \<Longrightarrow>
   child = Array cs \<or> (\<exists>c. cs = [c] \<and> child = Single (Some c)) \<Longrightarrow>
   L = length (children s A) \<Longrightarrow> k = min (ToUint32 i) L \<Longrightarrow>
     (\<exists>s'. add H A child (Some i) s = Some (Inr Undefined, s') \<and>
        children s' A = take k (children s A) @ map Some cs @ drop k (children s A)) \<and>
     (\<forall>q. i = Num q \<and> 0 \<le> q \<and> q < 2 ^ 32 \<longrightarrow> k = min (nat \<lfloor>q\<rfloor>) L) \<and>
     (\<forall>q. i = Num q \<and> - 1 < q \<and> q < 0 \<longrightarrow> k = 0) \<and>
     (\<forall>q. i = Num q \<and> - (2 ^ 32) < q \<and> q \<le> - 1 \<and> int L \<le> 2 ^ 32 - \<lfloor>- q\<rfloor> \<longrightarrow> k = L) \<and>
     (i \<in> {Undef, NaN, PosInfinity, NegInfinity} \<longrightarrow> k = 0)"
proof -
  assume root: "rooted s A" and addable: "addable s A cs"
    and plain: "\<forall>c\<in>set cs. h_kind H c = Plain"
    and child: "child = Array cs \<or> (\<exists>c. cs = [c] \<and> child = Single (Some c))"
    and L: "L = length (children s A)" and k: "k = min (ToUint32 i) L"
  have k': "k = resolve_insertAt (Some i) (length (children s A))"
    using k L by (simp add: resolve_insertAt_def)
  have 1: "\<exists>s'. add H A child (Some i) s = Some (Inr Undefined, s') \<and>
        children s' A = take k (children s A) @ map Some cs @ drop k (children s A)"
    using add_fresh_aux [OF root addable child k' plain] by blast
  have 2: "k = min (nat \<lfloor>q\<rfloor>) L" if "i = Num q" "0 \<le> q" "q < 2 ^ 32" for q
    using that k by (simp add: ToUint32_nonneg)
  have 3: "k = 0" if "i = Num q" "- 1 < q" "q < 0" for q
    using that k by (simp add: ToUint32_small_negative)
  have 4: "k = L" if "i = Num q" "- (2 ^ 32) < q" "q \<le> - 1" "int L \<le> 2 ^ 32 - \<lfloor>- q\<rfloor>" for q
    using that k by (simp add: ToUint32_negative)
  have 5: "k = 0" if "i \<in> {Undef, NaN, PosInfinity, NegInfinity}"
    using that k by (auto simp: ToUint32_def)
  show ?thesis
    using 1 2 3 4 5 by blast
qed

theorem add_index_resolution_witness:
  "rooted chain_state 2 \<and> addable chain_state 2 [7] \<and>
   h_kind spec_hooks 7 = Plain \<and> 2 = length (children chain_state 2) \<and>
   (2::nat) = min (ToUint32 (Num (- 1))) 2 \<and>
   (\<exists>s'. add spec_hooks 2 (Single (Some 7)) (Some (Num (- 1))) chain_state = Some (Inr Undefined, s') \<and>
      children s' 2 = [Some 3, Some 4, Some 7])"
proof -
  have L: "2 = length (children chain_state 2)"
    by (simp add: chain_state_def)
  have k: "(2::nat) = min (ToUint32 (Num (- 1))) 2"
    by (simp add: ToUint32_def trunc_def)
  have child: "Single (Some 7) = Array [7] \<or> (\<exists>c. [7] = [c] \<and> Single (Some 7) = Single (Some c))"
    by simp
  have cs: "children chain_state 2 = [Some 3, Some 4]"
    by (simp add: chain_state_def)
  have plain: "\<forall>c\<in>set [7]. h_kind spec_hooks c = Plain"
    by (simp add: spec_hooks_def)
  show ?thesis
    using add_index_resolution [OF rooted_chain_state addable_chain_state plain child L k]
      rooted_chain_state addable_chain_state L k plain
    by (simp add: cs)
qed

text \<open>
  The claim as stated puts an index below 0 at position 0.  The owner 2 has the children
  3 and 4; \<^verbatim>\<open>add(7, -1)\<close> appends node 7.
\<close>

theorem negative_index_counterexample:
  "map_option (\<lambda>(r, s'). (r, children s' 2))
     (add spec_hooks 2 (Single (Some 7)) (Some (Num (- 1))) chain_state) =
   Some (Inr Undefined, [Some 3, Some 4, Some 7]) \<and>
   children chain_state 2 = [Some 3, Some 4] \<and>
   [Some 3, Some 4, Some 7] \<noteq> take 0 [Some 3, Some 4] @ [Some (7::nat)] @ drop 0 [Some 3, Some 4]"
proof -
  have "map_option (\<lambda>(r, s'). (r, children s' 2))
     (add spec_hooks 2 (Single (Some 7)) (Some (Num (- 1))) chain_state) =
   Some (Inr Undefined, [Some 3, Some 4, Some 7])"
    unfolding add_def getAncestors_chain_state
    by (simp add: inThisArray_def resolve_insertAt_def ToUint32_def trunc_def
        chain_state_def spec_hooks_def Let_def elem_at_def call_activate_def)
  moreover have "children chain_state 2 = [Some 3, Some 4]"
    by (simp add: chain_state_def)
  ultimately show ?thesis
    by simp
qed

subsection \<open>Moving a node to another owner\<close>

text \<open>
  A single plain node that is a child of \<open>A\<close> and is added to the list of another
  owner \<open>C\<close> leaves the list of \<open>A\<close>, stands once in the list of \<open>C\<close> and has
  the parent \<open>C\<close>.
\<close>

lemma add_reparents_single:
  assumes root: "rooted s C" and B: "Some B \<in> set (children s A)" and AC: "A \<noteq> C"
    and consA: "consistent s A" and consC: "consistent s C" and anc: "\<not> ancestor_or_self s B C"
    and plain: "h_kind H B = Plain"
  shows "\<exists>s'. add H C (Single (Some B)) i s = Some (Inr Undefined, s') \<and>
           Some B \<notin> set (children s' A) \<and> count_list (children s' C) (Some B) = 1 \<and>
           parent s' B = Some C"
proof -
  have par: "parent s B = Some A"
    using consistentD [OF consA B] by simp
  then have addable: "addable s C [B]"
    using AC consA consC anc by (simp add: addable_def)
  have notC: "Some B \<notin> set (children s C)"
    using consistentD [OF consC, of "Some B"] par AC by auto
  define k where "k = resolve_insertAt i (length (children s C))"
  obtain s' where s': "add H C (Single (Some B)) i s = Some (Inr Undefined, s')"
      "children s' C = take k (children s C) @ map Some [B] @ drop k (children s C)"
      "\<forall>c\<in>set [B]. parent s' c = Some C"
      "\<forall>c\<in>set [B]. \<forall>p. parent s c = Some p \<longrightarrow> Some c \<notin> set (children s' p)"
    using add_fresh_aux [OF root addable _ k_def, of "Single (Some B)" H] plain by auto
  have "Some B \<notin> set (take k (children s C))" "Some B \<notin> set (drop k (children s C))"
    using notC by (auto dest: in_set_takeD in_set_dropD)
  then have "count_list (children s' C) (Some B) = 1"
    by (simp add: s'(2) count_list_0_iff)
  then show ?thesis
    using s'(1,3,4) par by auto
qed

text \<open>
  C3.  The loop of \<^verbatim>\<open>add\<close> removes a node from its previous parent's array
  before it sets the new parent.  When the previous parent is the owner itself, that
  removal shortens the very array the loop walks, and the loop skips the node that follows.
  Here node 0 owns 1, 2 and 3, and node 6 owns 7; both lists are consistent.
  \<^verbatim>\<open>add([1, 7], 1)\<close> on the list of node 0 returns normally, and afterwards node
  7 stands in the children arrays of both 0 and 6 and still has the parent 6, while node 2
  has the parent 0 and stands in no array.
\<close>

theorem bulk_add_leaves_node_in_two_lists:
  "consistent abc_state 0 \<and> consistent abc_state 6 \<and>
   children abc_state 0 = [Some 1, Some 2, Some 3] \<and> children abc_state 6 = [Some 7] \<and>
   map_option (\<lambda>(r, s'). (r, children s' 0, children s' 6, parent s' 7, parent s' 2))
     (add spec_hooks 0 (Array [1, 7]) (Some (Num 1)) abc_state) =
   Some (Inr Undefined, [Some 1, Some 7, Some 3], [Some 7], Some 6, Some 0)"
proof -
  have "map_option (\<lambda>(r, s'). (r, children s' 0, children s' 6, parent s' 7, parent s' 2))
     (add spec_hooks 0 (Array [1, 7]) (Some (Num 1)) abc_state) =
   Some (Inr Undefined, [Some 1, Some 7, Some 3], [Some 7], Some 6, Some 0)"
    unfolding add_def getAncestors_abc_state
    by (simp add: inThisArray_def resolve_insertAt_def ToUint32_def trunc_def
        abc_state_def spec_hooks_def Let_def elem_at_def remove_def
        call_activate_def call_deactivate_def)
  moreover have "consistent abc_state 0" "consistent abc_state 6"
    "children abc_state 0 = [Some 1, Some 2, Some 3]" "children abc_state 6 = [Some 7]"
    by (simp_all add: consistent_def abc_state_def)
  ultimately show ?thesis
    by simp
qed

subsection \<open>\<^verbatim>\<open>clear\<close> and removing every child\<close>

lemma clear_loop_from:
  "children s A = map Some ns \<Longrightarrow> i \<le> length ns \<Longrightarrow> \<forall>c\<in>set (drop i ns). h_kind H c = Plain \<Longrightarrow>
     clear_loop H A i s =
       (None,
        s\<lparr>parent := (\<lambda>n. if n \<in> set (drop i ns) then None else parent s n),
          nxt := (\<lambda>n. if n \<in> set (drop i ns) then None else nxt s n),
          world := fold (h_deactivate H) (drop i ns) (world s)\<rparr>)"
proof (induction "length ns - i" arbitrary: i s)
  case 0
  then have "elem_at (children s A) i = None"
    by (simp add: elem_at_def)
  then show ?case
    using 0 by (subst clear_loop.simps) simp
next
  case (Suc m)
  then have i: "i < length ns"
    by simp
  define c where "c = ns ! i"
  have at: "elem_at (children s A) i = Some c"
    using i Suc.prems by (simp add: elem_at_def c_def)
  have drop: "drop i ns = c # drop (Suc i) ns"
    using i by (simp add: c_def Cons_nth_drop_Suc)
  have plain: "h_kind H c = Plain" and rest: "\<forall>c\<in>set (drop (i + 1) ns). h_kind H c = Plain"
    using Suc.prems(3) by (simp_all add: drop)
  define s1 where "s1 = set_next c None (set_parent c None (set_world (h_deactivate H c (world s)) s))"
  have step: "clear_loop H A i s = clear_loop H A (i + 1) s1"
    using at by (subst clear_loop.simps) (simp add: s1_def call_deactivate_Plain [OF plain])
  have m: "m = length ns - (i + 1)"
    using Suc.hyps(2) by simp
  have ch1: "children s1 A = map Some ns"
    using Suc.prems(1) by (simp add: s1_def)
  have le: "i + 1 \<le> length ns"
    using i by simp
  have "clear_loop H A (i + 1) s1 =
       (None,
        s1\<lparr>parent := (\<lambda>n. if n \<in> set (drop (i + 1) ns) then None else parent s1 n),
           nxt := (\<lambda>n. if n \<in> set (drop (i + 1) ns) then None else nxt s1 n),
           world := fold (h_deactivate H) (drop (i + 1) ns) (world s1)\<rparr>)"
    using Suc.hyps(1) [OF m ch1 le rest] .
  then show ?case
    unfolding step drop
    by (simp add: s1_def set_next_def set_parent_def set_world_def fun_eq_iff)
qed

lemma clear_unlinked:
  "children s A = map Some ns \<Longrightarrow> \<forall>c\<in>set ns. h_kind H c = Plain \<Longrightarrow>
     clear H A s = (Inr Undefined, unlinked ns (fold (h_deactivate H) ns (world s)) A s)"
  using clear_loop_from [of s A ns 0 H]
  by (simp add: clear_def unlinked_def set_children_def)

text \<open>\<^verbatim>\<open>clear\<close> stops at a child that carries a mixin, at line 103.\<close>

lemma clear_loop_mixin_child:
  "elem_at (children s A) i = Some d \<Longrightarrow> h_kind H d \<noteq> Plain \<Longrightarrow>
     clear_loop H A i s = (Some TypeError, set_world (snd (call_deactivate H d (world s))) s)"
  using call_deactivate_mixin [of H d "world s"]
  by (subst clear_loop.simps) (auto split: prod.splits option.splits)

lemma clear_loop_plain_child:
  "elem_at (children s A) i = Some d \<Longrightarrow> h_kind H d = Plain \<Longrightarrow>
     clear_loop H A i s =
       clear_loop H A (i + 1)
         (set_next d None (set_parent d None (set_world (h_deactivate H d (world s)) s)))"
  by (subst clear_loop.simps) (simp add: call_deactivate_Plain)

lemma remove_each_effect:
  "children s A = map Some cur \<Longrightarrow> distinct cur \<Longrightarrow> distinct ps \<Longrightarrow> set ps \<subseteq> set cur \<Longrightarrow>
   \<forall>d\<in>set ps. h_kind H d = Plain \<Longrightarrow>
     \<exists>s'. remove_each H A ps s = (Inr Undefined, s') \<and>
        children s' = (children s)(A := map Some (filter (\<lambda>n. n \<notin> set ps) cur)) \<and>
        parent s' = (\<lambda>n. if n \<in> set ps then None else parent s n) \<and>
        (\<forall>n. n \<in> set ps \<longrightarrow> nxt s' n = None) \<and>
        (\<forall>n. n \<notin> set cur \<longrightarrow> nxt s' n = nxt s n) \<and>
        world s' = fold (h_deactivate H) ps (world s)"
proof (induction ps arbitrary: s cur)
  case Nil
  then show ?case by auto
next
  case (Cons d ds)
  have "d \<in> set cur"
    using Cons.prems(4) by simp
  then obtain pre post where cur: "cur = pre @ d # post"
    by (meson split_list)
  have d: "d \<notin> set pre" "d \<notin> set post" and dpp: "distinct (pre @ post)"
    using Cons.prems(2) cur by auto
  have cs: "children s A = map Some pre @ Some d # map Some post"
    using Cons.prems(1) cur by simp
  define s1 where "s1 = set_children A (map Some pre @ map Some post)
              (set_world (h_deactivate H d (world s))
                (set_next d None (set_parent d None
                  (if pre = [] then s else set_next (last pre) (nxt s d) s))))"
  have plain: "h_kind H d = Plain" and plains: "\<forall>d\<in>set ds. h_kind H d = Plain"
    using Cons.prems(5) by simp_all
  have rm: "remove H A (Some d) s = (Inr Undefined, s1)"
    using remove_first_occurrence [OF cs d(1) plain] by (simp add: s1_def)
  have c1: "children s1 A = map Some (pre @ post)"
    by (simp add: s1_def)
  have dds: "distinct ds"
    using Cons.prems(3) by simp
  have sub: "set ds \<subseteq> set (pre @ post)"
    using Cons.prems(3,4) cur by auto
  obtain s' where s': "remove_each H A ds s1 = (Inr Undefined, s')"
      "children s' = (children s1)(A := map Some (filter (\<lambda>n. n \<notin> set ds) (pre @ post)))"
      "parent s' = (\<lambda>n. if n \<in> set ds then None else parent s1 n)"
      "\<forall>n. n \<in> set ds \<longrightarrow> nxt s' n = None"
      "\<forall>n. n \<notin> set (pre @ post) \<longrightarrow> nxt s' n = nxt s1 n"
      "world s' = fold (h_deactivate H) ds (world s1)"
    using Cons.IH [OF c1 dpp dds sub plains] by blast
  have 1: "remove_each H A (d # ds) s = (Inr Undefined, s')"
    using rm s'(1) by simp
  have "filter (\<lambda>n. n \<notin> set (d # ds)) xs = filter (\<lambda>n. n \<notin> set ds) xs" if "d \<notin> set xs" for xs
    using that by (induction xs) auto
  then have "filter (\<lambda>n. n \<notin> set (d # ds)) cur = filter (\<lambda>n. n \<notin> set ds) (pre @ post)"
    using d by (simp add: cur)
  then have 2: "children s' = (children s)(A := map Some (filter (\<lambda>n. n \<notin> set (d # ds)) cur))"
    by (simp add: s'(2) s1_def)
  have 3: "parent s' = (\<lambda>n. if n \<in> set (d # ds) then None else parent s n)"
    by (auto simp: s'(3) s1_def fun_eq_iff)
  have "nxt s' d = None"
    using s'(5) d by (simp add: s1_def)
  then have 4: "\<forall>n. n \<in> set (d # ds) \<longrightarrow> nxt s' n = None"
    using s'(4) by auto
  have 5: "\<forall>n. n \<notin> set cur \<longrightarrow> nxt s' n = nxt s n"
  proof (intro allI impI)
    fix n assume n: "n \<notin> set cur"
    then have "n \<notin> set (pre @ post)" "n \<noteq> d" "pre \<noteq> [] \<longrightarrow> n \<noteq> last pre"
      using cur last_in_set [of pre] by auto
    then show "nxt s' n = nxt s n"
      using s'(5) by (simp add: s1_def)
  qed
  have 6: "world s' = fold (h_deactivate H) (d # ds) (world s)"
    by (simp add: s'(6) s1_def)
  show ?case
    using 1 2 3 4 5 6 by blast
qed

text \<open>
  Let the children array of \<open>A\<close> hold the nodes \<open>ns\<close>, each once and with no
  empty slot, let them be plain display objects, and let the deactivations of any two of
  them commute.  Then calling \<^verbatim>\<open>remove\<close> on every child, in any order \<open>ps\<close>
  (a permutation of \<open>ns\<close>), ends in exactly the state that \<^verbatim>\<open>clear\<close>
  ends in, and both return normally.  In that state the array of \<open>A\<close> is empty, every
  former child has its parent and next references cleared, and the world is the former
  world with every child deactivated once.
\<close>

lemma clear_plain_equals_remove_each:
  "children s A = map Some ns \<Longrightarrow> distinct ns \<Longrightarrow> mset ps = mset ns \<Longrightarrow>
   \<forall>c\<in>set ns. h_kind H c = Plain \<Longrightarrow>
   (\<forall>a\<in>set ns. \<forall>b\<in>set ns. \<forall>w.
      h_deactivate H a (h_deactivate H b w) = h_deactivate H b (h_deactivate H a w)) \<Longrightarrow>
     remove_each H A ps s = clear H A s \<and>
     (case clear H A s of (r, s') \<Rightarrow>
        r = Inr Undefined \<and> children s' A = [] \<and>
        (\<forall>n\<in>set ns. parent s' n = None \<and> nxt s' n = None) \<and>
        world s' = fold (h_deactivate H) ns (world s))"
proof -
  assume ns: "children s A = map Some ns" and dist: "distinct ns" and perm: "mset ps = mset ns"
    and plain: "\<forall>c\<in>set ns. h_kind H c = Plain"
    and comm: "\<forall>a\<in>set ns. \<forall>b\<in>set ns. \<forall>w.
      h_deactivate H a (h_deactivate H b w) = h_deactivate H b (h_deactivate H a w)"
  have set: "set ps = set ns" and dps: "distinct ps"
    using perm dist mset_eq_imp_distinct_iff [of ps ns] by (auto dest: mset_eq_setD)
  have plain_ps: "\<forall>d\<in>set ps. h_kind H d = Plain"
    using plain set by simp
  have sub: "set ps \<subseteq> set ns"
    using set by simp
  obtain s' where s': "remove_each H A ps s = (Inr Undefined, s')"
      "children s' = (children s)(A := map Some (filter (\<lambda>n. n \<notin> set ps) ns))"
      "parent s' = (\<lambda>n. if n \<in> set ps then None else parent s n)"
      "\<forall>n. n \<in> set ps \<longrightarrow> nxt s' n = None"
      "\<forall>n. n \<notin> set ns \<longrightarrow> nxt s' n = nxt s n"
      "world s' = fold (h_deactivate H) ps (world s)"
    using remove_each_effect [OF ns dist dps sub plain_ps] by auto
  have "fold (h_deactivate H) ps = fold (h_deactivate H) ns"
    using comm set by (intro fold_multiset_equiv perm) (auto simp: fun_eq_iff)
  then have w: "world s' = fold (h_deactivate H) ns (world s)"
    using s'(6) by simp
  have "filter (\<lambda>n. n \<notin> set ps) ns = []"
    using set by (simp add: filter_empty_conv)
  then have "s' = unlinked ns (fold (h_deactivate H) ns (world s)) A s"
    using s'(3,4,5) w set by (intro state.equality) (auto simp: unlinked_def s'(2) fun_eq_iff)
  then have "remove_each H A ps s = clear H A s"
    using s'(1) clear_unlinked [OF ns plain] by simp
  then show ?thesis
    by (simp add: clear_unlinked [OF ns plain] unlinked_def)
qed

text \<open>
  C5.  The owner 0 of \<open>abc_state\<close> has the children \<open>[1, 2, 3]\<close>, linked in
  order; node 2 is a container that carries the mixin \<^verbatim>\<open>methods\<close>, so its
  \<^verbatim>\<open>_deactivate\<close> is \<^verbatim>\<open>deactivate\<close> of lines 136-142, which
  throws a \<open>TypeError\<close>.  \<^verbatim>\<open>clear\<close> unlinks node 1 and throws at line 103
  when it reaches node 2, before line 104: the array is still \<open>[1, 2, 3]\<close> and node
  2 keeps its parent and its next reference.  \<^verbatim>\<open>remove\<close> called on the
  children one by one takes node 1 out and throws in \<^verbatim>\<open>remove(2)\<close> at line
  123, after line 122: the array is \<open>[2, 3]\<close> and node 2 has no parent and no next
  reference.  The two end in different states, and neither empties the array.
\<close>

theorem clear_differs_on_container_child:
  "children abc_state 0 = [Some 1, Some 2, Some 3] \<and> h_kind (group_hooks 2) 2 = Container \<and>
   fst (clear (group_hooks 2) 0 abc_state) = Inl TypeError \<and>
   children (snd (clear (group_hooks 2) 0 abc_state)) 0 = [Some 1, Some 2, Some 3] \<and>
   parent (snd (clear (group_hooks 2) 0 abc_state)) 1 = None \<and>
   parent (snd (clear (group_hooks 2) 0 abc_state)) 2 = Some 0 \<and>
   nxt (snd (clear (group_hooks 2) 0 abc_state)) 2 = Some 3 \<and>
   fst (remove_each (group_hooks 2) 0 [1, 2, 3] abc_state) = Inl TypeError \<and>
   children (snd (remove_each (group_hooks 2) 0 [1, 2, 3] abc_state)) 0 = [Some 2, Some 3] \<and>
   parent (snd (remove_each (group_hooks 2) 0 [1, 2, 3] abc_state)) 2 = None \<and>
   nxt (snd (remove_each (group_hooks 2) 0 [1, 2, 3] abc_state)) 2 = None \<and>
   remove_each (group_hooks 2) 0 [1, 2, 3] abc_state \<noteq> clear (group_hooks 2) 0 abc_state"
proof -
  have k1: "h_kind (group_hooks 2) 1 = Plain" and k2: "h_kind (group_hooks 2) 2 \<noteq> Plain"
    by (simp_all add: group_hooks_def)
  have e1: "elem_at (children abc_state 0) 0 = Some 1"
    by (simp add: abc_state_def)
  define s1 where
    "s1 = set_next 1 None (set_parent 1 None
            (set_world (h_deactivate (group_hooks 2) 1 (world abc_state)) abc_state))"
  have e2: "elem_at (children s1 0) (0 + 1) = Some 2"
    by (simp add: s1_def abc_state_def)
  have "clear_loop (group_hooks 2) 0 0 abc_state =
          (Some TypeError, set_world (snd (call_deactivate (group_hooks 2) 2 (world s1))) s1)"
    unfolding clear_loop_plain_child [OF e1 k1] s1_def [symmetric]
    by (rule clear_loop_mixin_child [OF e2 k2])
  then have c: "clear (group_hooks 2) 0 abc_state =
             (Inl TypeError,
              set_world (h_deactivate spec_hooks 2 (h_deactivate spec_hooks 1 (world abc_state)))
                (set_next 1 None (set_parent 1 None abc_state)))"
    by (simp add: clear_def s1_def call_deactivate_def deactivate_def methods_children_length_def
        group_hooks_def set_world_def set_next_def set_parent_def)
  have r: "remove_each (group_hooks 2) 0 [1, 2, 3] abc_state =
             (Inl TypeError,
              set_world (h_deactivate spec_hooks 2 (h_deactivate spec_hooks 1 (world abc_state)))
                (set_next 2 None (set_parent 2 None
                  (set_children 0 [Some 2, Some 3]
                    (set_next 1 None (set_parent 1 None abc_state))))))"
    by (simp add: remove_def Let_def
        call_deactivate_def deactivate_def methods_children_length_def
        group_hooks_def abc_state_def elem_at_def
        set_world_def set_next_def set_parent_def set_children_def)
  have "children abc_state 0 = [Some 1, Some 2, Some 3]" "h_kind (group_hooks 2) 2 = Container"
    by (simp_all add: abc_state_def group_hooks_def)
  moreover have "children (snd (clear (group_hooks 2) 0 abc_state)) 0 \<noteq>
                 children (snd (remove_each (group_hooks 2) 0 [1, 2, 3] abc_state)) 0"
    unfolding c r by (simp add: abc_state_def)
  then have "remove_each (group_hooks 2) 0 [1, 2, 3] abc_state \<noteq> clear (group_hooks 2) 0 abc_state"
    by auto
  ultimately show ?thesis
    unfolding c r by (simp add: abc_state_def)
qed

subsection \<open>The exported display list has no gaps\<close>

lemma remove_children_subset: "set (children (snd (remove H A d s)) p) \<subseteq> set (children s p)"
  by (auto simp: remove_def Let_def split: option.splits if_splits prod.splits
      dest: in_set_takeD in_set_dropD)

lemma add_loop_children_subset:
  "set (children (snd (add_loop H A k i nextChild s)) p) \<subseteq> set (children s p)"
proof (induction k arbitrary: i nextChild s)
  case 0
  show ?case by simp
next
  case (Suc k)
  show ?case
  proof (cases "case nextChild of Some c \<Rightarrow> Some c | None \<Rightarrow> elem_at (children s A) i")
    case None
    then show ?thesis by simp
  next
    case (Some child)
    define r where "r = (case parent s child of None \<Rightarrow> (Inr Undefined, s)
                         | Some previousParent \<Rightarrow> remove H previousParent (Some child) s)"
    have sub1: "set (children (snd r) p) \<subseteq> set (children s p)"
      using remove_children_subset [of H _ "Some child" s p]
      by (auto simp: r_def split: option.splits)
    show ?thesis
    proof (cases r)
      case (Pair res s1)
      show ?thesis
      proof (cases res)
        case (Inl e)
        then show ?thesis
          using Some Pair sub1 by (simp add: r_def [symmetric])
      next
        case (Inr v)
        define nc where "nc = elem_at (children s1 A) (i + 1)"
        obtain e w3 where act: "call_activate H child (h_stage H (world s1) A) (world s1) = (e, w3)"
          by (cases "call_activate H child (h_stage H (world s1) A) (world s1)")
        define s3 where "s3 = set_world w3 (set_parent child (Some A) (set_next child nc s1))"
        have ch3: "children s3 = children s1"
          by (simp add: s3_def)
        show ?thesis
        proof (cases e)
          case None
          then have "add_loop H A (Suc k) i nextChild s = add_loop H A k (i + 1) nc s3"
            using Some Pair Inr act
            by (simp add: r_def [symmetric] Let_def nc_def s3_def)
          then show ?thesis
            using Suc.IH [of "i + 1" nc s3] sub1 Pair ch3 by auto
        next
          case (Some err)
          then have "add_loop H A (Suc k) i nextChild s = (Inl err, s3)"
            using \<open>(case nextChild of Some c \<Rightarrow> Some c | None \<Rightarrow> elem_at (children s A) i) = Some child\<close>
              Pair Inr act
            by (simp add: r_def [symmetric] Let_def nc_def s3_def)
          then show ?thesis
            using sub1 Pair ch3 by auto
        qed
      qed
    qed
  qed
qed

lemma add_children_subset:
  assumes "add H A child i s = Some (r, s')"
  shows "set (children s' p) \<subseteq>
           set (children s p) \<union> set (case child of Array cs \<Rightarrow> map Some cs | Single c \<Rightarrow> [c])"
proof -
  obtain anc where anc: "getAncestors s A = Some anc"
    using assms by (auto simp: add_def split: option.splits)
  define new where "new = (case child of Array cs \<Rightarrow> map Some cs | Single c \<Rightarrow> [c])"
  define n where "n = (case child of Array cs \<Rightarrow> length cs | Single _ \<Rightarrow> 1)"
  define k where "k = resolve_insertAt i (length (children s A))"
  define s1 where "s1 = set_children A (take k (children s A) @ new @ drop k (children s A)) s"
  define link where "link = (if 0 < k
       then (case elem_at (children s1 A) (k - 1) of None \<Rightarrow> None
             | Some previous \<Rightarrow> Some (set_next previous (hd new) s1))
       else Some s1)"
  define rest where "rest = (case link of None \<Rightarrow> (Inl TypeError, s1)
                             | Some s2 \<Rightarrow> add_loop H A n k None s2)"
  have sub1: "set (children s1 p) \<subseteq> set (children s p) \<union> set new"
    by (auto simp: s1_def dest: in_set_takeD in_set_dropD)
  have link: "link = Some s2 \<Longrightarrow> children s2 = children s1" for s2
    by (auto simp: link_def split: if_splits option.splits)
  have rest: "set (children (snd rest) p) \<subseteq> set (children s p) \<union> set new"
  proof (cases link)
    case None
    then show ?thesis
      using sub1 by (simp add: rest_def)
  next
    case (Some s2)
    then have "set (children (snd rest) p) \<subseteq> set (children s2 p)"
      using add_loop_children_subset [of H A n k None s2 p] by (simp add: rest_def)
    then show ?thesis
      using sub1 link [OF Some] by auto
  qed
  have "add H A child i s = Some rest \<or> add H A child i s = Some (Inr Undefined, s)"
    unfolding add_def anc rest_def link_def s1_def k_def n_def new_def Let_def
    by simp
  then have "s' = snd rest \<or> s' = s"
    using assms by auto
  then show ?thesis
    using rest unfolding new_def by auto
qed

lemma clear_loop_children: "children (snd (clear_loop H A i s)) = children s"
proof (induction H A i s rule: clear_loop.induct)
  case (1 H owner i s)
  show ?case
  proof (cases "elem_at (children s owner) i")
    case None
    then show ?thesis
      by (subst clear_loop.simps) simp
  next
    case (Some child)
    obtain e w1 where c: "call_deactivate H child (world s) = (e, w1)"
      by (cases "call_deactivate H child (world s)")
    show ?thesis
    proof (cases e)
      case None
      then show ?thesis
        using "1.IH" [OF Some c [symmetric, unfolded None] refl] Some c
        by (subst clear_loop.simps) simp
    next
      case (Some err)
      then show ?thesis
        using \<open>elem_at (children s owner) i = Some child\<close> c
        by (subst clear_loop.simps) simp
    qed
  qed
qed

lemma dense_subset:
  assumes "dense s p" and "set (children s' p) \<subseteq> set (children s p) \<union> X" and "None \<notin> X"
  shows "dense s' p"
  using assms unfolding dense_def by auto

lemma dl_exec_dense:
  assumes "dl_exec H c s = Some (r, s')" and "dense s p"
  shows "dense s' p"
proof (cases c)
  case (Pair owner op)
  show ?thesis
  proof (cases op)
    case (Add_one n i)
    then have "add H owner (Single (Some n)) i s = Some (r, s')"
      using assms(1) Pair by simp
    from add_children_subset [OF this, of p]
    have "set (children s' p) \<subseteq> set (children s p) \<union> {Some n}"
      by simp
    with assms(2) show ?thesis
      by (rule dense_subset) simp
  next
    case (Add_many ns i)
    then have "add H owner (Array ns) i s = Some (r, s')"
      using assms(1) Pair by simp
    from add_children_subset [OF this, of p]
    have "set (children s' p) \<subseteq> set (children s p) \<union> set (map Some ns)"
      by simp
    with assms(2) show ?thesis
      by (rule dense_subset) auto
  next
    case Clear_all
    then have "s' = snd (clear_loop H owner 0 s) \<or>
               s' = set_children owner [] (snd (clear_loop H owner 0 s))"
      using assms(1) Pair by (auto simp: clear_def split: prod.splits option.splits)
    then have "set (children s' p) \<subseteq> set (children s p) \<union> {}"
      by (auto simp: clear_loop_children split: if_splits)
    with assms(2) show ?thesis
      by (rule dense_subset) simp
  next
    case (Remove_one d)
    then have "s' = snd (remove H owner (Some d) s)"
      using assms(1) Pair by simp
    then have "set (children s' p) \<subseteq> set (children s p) \<union> {}"
      using remove_children_subset [of H owner "Some d" s p] by simp
    with assms(2) show ?thesis
      by (rule dense_subset) simp
  qed
qed

lemma run_ops_dense: "run_ops H ops s = Some s' \<Longrightarrow> dense s p \<Longrightarrow> dense s' p"
proof (induction ops arbitrary: s)
  case Nil
  then show ?case by simp
next
  case (Cons c ops)
  then obtain r s1 where c: "dl_exec H c s = Some (r, s1)" and rest: "run_ops H ops s1 = Some s'"
    by (auto split: option.splits)
  show ?case
    using Cons.IH [OF rest dl_exec_dense [OF c Cons.prems(2)]] .
qed

text \<open>
  C10.  Whatever the calls of \<^verbatim>\<open>add\<close>, \<^verbatim>\<open>remove\<close> and
  \<^verbatim>\<open>clear\<close> on the exported display lists, with whatever owners, nodes and
  indices, and whether they return or throw: a children array without an empty slot has
  none afterwards.  The module returns the constructor whose prototype has
  \<^verbatim>\<open>add\<close>, \<^verbatim>\<open>clear\<close> and \<^verbatim>\<open>remove\<close> before the
  mixin with the gap-leaving removal strategy is assigned; these three are the methods a
  display list can be called with, and no \<^verbatim>\<open>removeChild\<close> is among
  them.
\<close>

theorem exported_lists_stay_dense:
  "dense s p \<Longrightarrow>
     (case run_ops H ops s of None \<Rightarrow> True | Some s' \<Rightarrow> dense s' p) \<and>
     run_module module_body [] =
       Some (Exports
         [(''DisplayList'', [''add'', ''clear'', ''remove'']),
          (''methods'', [''_activate'', ''_deactivate'', ''addChild'', ''children'', ''clear'',
                        ''getComputed'', ''getIndexOfChild'', ''removeChild'']),
          (''timelineMethods'', [''_activate'', ''_deactivate'', ''addChild'', ''children'', ''clear'',
                        ''getComputed'', ''getIndexOfChild'', ''removeChild''])]) \<and>
     (\<forall>name. (\<exists>m. DisplayList_property name = Some (Method m)) \<longleftrightarrow>
               name \<in> set [''add'', ''clear'', ''remove'']) \<and>
     DisplayList_property ''removeChild'' = None"
proof -
  assume d: "dense s p"
  have 1: "case run_ops H ops s of None \<Rightarrow> True | Some s' \<Rightarrow> dense s' p"
    using run_ops_dense [OF _ d] by (auto split: option.splits)
  have 2: "run_module module_body [] =
       Some (Exports
         [(''DisplayList'', [''add'', ''clear'', ''remove'']),
          (''methods'', [''_activate'', ''_deactivate'', ''addChild'', ''children'', ''clear'',
                        ''getComputed'', ''getIndexOfChild'', ''removeChild'']),
          (''timelineMethods'', [''_activate'', ''_deactivate'', ''addChild'', ''children'', ''clear'',
                        ''getComputed'', ''getIndexOfChild'', ''removeChild''])])"
    by (simp add: module_body_def)
  have 3: "\<forall>name. (\<exists>m. DisplayList_property name = Some (Method m)) \<longleftrightarrow>
               name \<in> set [''add'', ''clear'', ''remove'']"
    by (auto simp: DisplayList_property_def split: if_splits)
  have 4: "DisplayList_property ''removeChild'' = None"
    by (simp add: DisplayList_property_def)
  show ?thesis
    by (rule conjI [OF 1 conjI [OF 2 conjI [OF 3 4]]])
qed

lemma run_example:
  "map_option (\<lambda>s'. children s' 0)
     (run_ops spec_hooks
        [(0, Add_many [1, 2] None), (0, Remove_one 3), (6, Clear_all), (0, Add_one 7 (Some (Num 0)))]
        abc_state) =
   Some [Some 7, Some 2, Some 1, Some 2]"
  by (simp add: add_def getAncestors_def getAncestors_loop.simps clear_def clear_loop.simps
      inThisArray_def resolve_insertAt_def ToUint32_def trunc_def
      abc_state_def spec_hooks_def Let_def elem_at_def remove_def
      call_activate_def call_deactivate_def)

theorem exported_lists_stay_dense_witness:
  "dense abc_state 0 \<and>
   map_option (\<lambda>s'. (dense s' 0, children s' 0))
     (run_ops spec_hooks
        [(0, Add_many [1, 2] None), (0, Remove_one 3), (6, Clear_all), (0, Add_one 7 (Some (Num 0)))]
        abc_state) =
   Some (True, [Some 7, Some 2, Some 1, Some 2])"
proof -
  have d: "dense abc_state 0"
    by (simp add: dense_def abc_state_def)
  show ?thesis
    using exported_lists_stay_dense [OF d, THEN conjunct1, of spec_hooks
        "[(0, Add_many [1, 2] None), (0, Remove_one 3), (6, Clear_all), (0, Add_one 7 (Some (Num 0)))]"]
      run_example d
    by (auto split: option.splits)
qed

subsection \<open>The bounding edges of a container\<close>

lemma edge_step_simps:
  "edge_step cmp (cur, f) None = (cur, f)"
  "edge_step cmp (cur, True) (Some (a, v)) = (a + v, False)"
  "edge_step cmp (cur, False) (Some (a, v)) = (cmp cur (a + v), False)"
  by (simp_all add: edge_step_def)

lemma foldl_edge_step_False:
  "foldl (edge_step cmp) (cur, False) rs = (foldl cmp cur [a + v. Some (a, v) \<leftarrow> rs], False)"
proof (induction rs arbitrary: cur)
  case Nil
  show ?case by simp
next
  case (Cons r rs)
  show ?case
    by (cases r) (auto simp: edge_step_simps Cons)
qed

lemma foldl_edge_step_True:
  "fst (foldl (edge_step cmp) (cur, True) rs) =
     (case [a + v. Some (a, v) \<leftarrow> rs] of [] \<Rightarrow> cur | w # ws \<Rightarrow> foldl cmp w ws)"
proof (induction rs)
  case Nil
  show ?case by simp
next
  case (Cons r rs)
  show ?case
    by (cases r) (auto simp: edge_step_simps Cons foldl_edge_step_False)
qed

lemma foldl_min: "foldl min w ws = Min (set (w # ws))" for w :: "'a::linorder"
proof -
  have "foldl min w ws = fold min ws w"
    by (simp add: foldl_conv_fold min.commute)
  then show ?thesis
    using Min.set_eq_fold [of w ws] by simp
qed

lemma foldl_max: "foldl max w ws = Max (set (w # ws))" for w :: "'a::linorder"
proof -
  have "foldl max w ws = fold max ws w"
    by (simp add: foldl_conv_fold max.commute)
  then show ?thesis
    using Max.set_eq_fold [of w ws] by simp
qed

lemma getComputed_edge_initialised: "snd (getComputed_edge key obj) = initialised obj"
proof (induction key obj rule: getComputed_edge.induct)
  case (1 key x y computed sz)
  show ?case by simp
next
  case (2 key x y cho)
  define children where "children = (case cho of None \<Rightarrow> [] | Some cs \<Rightarrow> cs)"
  have "snd (getComputed_edge key d) = initialised d" if "c \<in> set children" "c = Some d" for c d
    using "2.IH" [OF children_def refl refl, of c d] that by (simp add: option.set_intros)
  then have "map (map_option (\<lambda>(a, v, child'). child'))
               (map (map_option (\<lambda>child. (attr child ax, getComputed_edge key child))) children) =
             map (map_option initialised) children" for ax
    by (auto simp: option.map_comp comp_def split_def intro!: option.map_cong)
  then show ?case
    by (simp add: Let_def children_def [symmetric])
qed

lemma initialised_present: "present obj \<Longrightarrow> initialised obj = obj"
proof (induction obj rule: initialised.induct)
  case (1 x y computed sz)
  show ?case by simp
next
  case (2 x y cho)
  then obtain cs where cho: "cho = Some cs"
    by (cases cho) auto
  have "map_option initialised c = c" if "c \<in> set cs" for c
  proof (cases c)
    case None
    then show ?thesis by simp
  next
    case (Some d)
    then have "present d"
      using "2.prems" cho that by (auto simp: list_all_iff)
    then show ?thesis
      using "2.IH" [of c d] that cho Some by simp
  qed
  then have "map (map_option initialised) cs = cs"
    by (simp add: map_idI)
  then show ?case
    by (simp add: cho)
qed

text \<open>
  C9, as amended.  For an edge key, \<^verbatim>\<open>getComputed\<close> of a container returns 0
  when the container has no child that is not a hole, and otherwise the minimum (keys
  \<^verbatim>\<open>top\<close>, \<^verbatim>\<open>left\<close>) or the maximum (\<^verbatim>\<open>right\<close>,
  \<^verbatim>\<open>bottom\<close>) over these children of the child's position on the axis plus
  the child's own \<^verbatim>\<open>getComputed\<close> of the key.  The call changes nothing but
  one thing: an absent \<^verbatim>\<open>_children\<close> of the container, or of a container
  below it, becomes an empty array.  Where every container has its array, the object is
  unchanged.
\<close>

theorem getComputed_edge_extremum:
  "key = ''top'' \<or> key = ''right'' \<or> key = ''bottom'' \<or> key = ''left'' \<Longrightarrow>
   kids = (case cho of None \<Rightarrow> [] | Some cs \<Rightarrow> cs) \<Longrightarrow>
   axis = (if key = ''top'' \<or> key = ''bottom'' then ''y'' else ''x'') \<Longrightarrow>
   vals = [attr child axis + fst (getComputed_edge key child). Some child \<leftarrow> kids] \<Longrightarrow>
     getComputed key (Group x y cho) =
       (Number (if vals = [] then 0
                else if key = ''top'' \<or> key = ''left'' then Min (set vals) else Max (set vals)),
        initialised (Group x y cho)) \<and>
     (present (Group x y cho) \<longrightarrow> snd (getComputed key (Group x y cho)) = Group x y cho) \<and>
     (\<forall>child :: 'n dobj. fst (getComputed key child) = Number (fst (getComputed_edge key child)))"
  for x :: "'n::{linorder,plus,minus,zero}"
proof -
  assume key: "key = ''top'' \<or> key = ''right'' \<or> key = ''bottom'' \<or> key = ''left''"
    and kids: "kids = (case cho of None \<Rightarrow> [] | Some cs \<Rightarrow> cs)"
    and axis: "axis = (if key = ''top'' \<or> key = ''bottom'' then ''y'' else ''x'')"
    and vals: "vals = [attr child axis + fst (getComputed_edge key child). Some child \<leftarrow> kids]"
  define cmp :: "'n \<Rightarrow> 'n \<Rightarrow> 'n" where "cmp = (if key = ''top'' \<or> key = ''left'' then min else max)"
  define rs where "rs = map (map_option (\<lambda>(a, v, child'). (a, v)))
      (map (map_option (\<lambda>child. (attr child axis, getComputed_edge key child))) kids)"
  have rs: "[a + v. Some (a, v) \<leftarrow> rs] = vals"
    unfolding rs_def vals
    by (induction kids) (auto simp: split_def split: option.splits)
  have "fst (getComputed_edge key (Group x y cho)) = fst (foldl (edge_step cmp) (0, True) rs)"
    by (simp add: Let_def kids [symmetric] axis [symmetric] cmp_def [symmetric] rs_def)
  also have "\<dots> = (case vals of [] \<Rightarrow> 0 | w # ws \<Rightarrow> foldl cmp w ws)"
    by (simp add: foldl_edge_step_True rs)
  also have "\<dots> = (if vals = [] then 0
                else if key = ''top'' \<or> key = ''left'' then Min (set vals) else Max (set vals))"
    by (cases vals) (simp_all add: cmp_def foldl_min foldl_max del: set_simps)
  finally have v: "fst (getComputed_edge key (Group x y cho)) =
      (if vals = [] then 0
       else if key = ''top'' \<or> key = ''left'' then Min (set vals) else Max (set vals))" .
  have g: "getComputed key obj = (Number (fst (getComputed_edge key obj)), snd (getComputed_edge key obj))"
    for obj :: "'n dobj"
    using key by (auto simp: getComputed_def split: prod.splits)
  have 1: "getComputed key (Group x y cho) =
       (Number (if vals = [] then 0
                else if key = ''top'' \<or> key = ''left'' then Min (set vals) else Max (set vals)),
        initialised (Group x y cho))"
    unfolding g v getComputed_edge_initialised ..
  have 2: "present (Group x y cho) \<longrightarrow> snd (getComputed key (Group x y cho)) = Group x y cho"
    unfolding g getComputed_edge_initialised using initialised_present [of "Group x y cho"] by simp
  have 3: "\<forall>child :: 'n dobj. fst (getComputed key child) = Number (fst (getComputed_edge key child))"
    by (simp only: g fst_conv simp_thms)
  from 1 2 3 show ?thesis
    by (intro conjI)
qed

theorem getComputed_edge_extremum_witness:
  "fst (getComputed ''left'' three_children) = Number (- 5) \<and>
   fst (getComputed ''right'' three_children) = Number 25 \<and>
   present three_children \<and>
   snd (getComputed ''right'' three_children) = three_children \<and>
   getComputed ''top'' (Group 0 0 (Some []) :: int dobj) = (Number 0, Group 0 0 (Some []))"
proof -
  have p: "present three_children"
    by (simp add: three_children_def three_leaves_def)
  have r: "''right'' = ''top'' \<or> ''right'' = ''right'' \<or> ''right'' = ''bottom'' \<or> ''right'' = ''left''"
    and l: "''left'' = ''top'' \<or> ''left'' = ''right'' \<or> ''left'' = ''bottom'' \<or> ''left'' = ''left''"
    and t: "''top'' = ''top'' \<or> ''top'' = ''right'' \<or> ''top'' = ''bottom'' \<or> ''top'' = ''left''"
    by simp_all
  have 1: "fst (getComputed ''right'' three_children) = Number 25"
    and 2: "snd (getComputed ''right'' three_children) = three_children"
    using getComputed_edge_extremum [OF r refl refl refl, of 0 0 "Some three_leaves"] p
    by (simp_all add: three_children_def three_leaves_def)
  have 3: "fst (getComputed ''left'' three_children) = Number (- 5)"
    using getComputed_edge_extremum [OF l refl refl refl, of 0 0 "Some three_leaves"]
    by (simp add: three_children_def three_leaves_def)
  have 4: "getComputed ''top'' (Group 0 0 (Some []) :: int dobj) = (Number 0, Group 0 0 (Some []))"
    using getComputed_edge_extremum [OF t refl refl refl, of "0::int" 0 "Some []"]
    by simp
  show ?thesis
    using 1 2 3 4 p by simp
qed

text \<open>
  The claim as stated says that the computation changes no state.  On a container without
  a \<^verbatim>\<open>_children\<close> array the call creates one.
\<close>

theorem getComputed_initialises_children:
  "getComputed ''left'' (Group 0 0 None :: int dobj) = (Number 0, Group 0 0 (Some [])) \<and>
   snd (getComputed ''left'' (Group 0 0 None :: int dobj)) \<noteq> Group 0 0 None"
  by (simp add: getComputed_def)

end
